theory Spec2Isabelle
  imports
    Complex_Main
    "HOL-Library.AList"
    "HOL-Library.Char_ord"
    "HOL-Library.List_Lexorder"
    "HOL-Library.Product_Lexorder"
begin

section \<open>Graph model and path router (chatbot\_app.py, lines 96--136)\<close>

text \<open>
  The graph is a Python dict from a location name to a dict from a neighbour name to a
  property dict with the keys \<^verbatim>\<open>'weight'\<close> and \<^verbatim>\<open>'direction'\<close>. A dict
  is an association list in insertion order, read with \<^const>\<open>map_of\<close> and written with
  \<^const>\<open>AList.update\<close> (which keeps the position of a key that is already there, as
  a Python dict does). A key that is absent from a property dict is \<open>None\<close>;
  \<^verbatim>\<open>properties.get('weight', 1)\<close> and
  \<^verbatim>\<open>properties.get('direction', 'move forward')\<close> supply the defaults.
  Weights are Python integers.
\<close>

record edge_props =
  weight :: "int option"
  direction :: "string option"

type_synonym adjacency = "(string \<times> edge_props) list"
type_synonym graph = "(string \<times> adjacency) list"

definition weight_of :: "edge_props \<Rightarrow> int" where
  "weight_of properties = (case weight properties of None \<Rightarrow> 1 | Some w \<Rightarrow> w)"

definition direction_of :: "edge_props \<Rightarrow> string" where
  "direction_of properties =
     (case direction properties of None \<Rightarrow> ''move forward'' | Some d \<Rightarrow> d)"

text \<open>\<^verbatim>\<open>graph.get(node, {})\<close>: a node that is no key has no outgoing edge.\<close>

definition graph_get :: "graph \<Rightarrow> string \<Rightarrow> adjacency" where
  "graph_get g node = (case map_of g node of None \<Rightarrow> [] | Some a \<Rightarrow> a)"

text \<open>
  The keys of a dict are pairwise different; on the association lists this is a
  representation invariant of every adjacency dict.
\<close>

definition dict_graph :: "graph \<Rightarrow> bool" where
  "dict_graph g = list_all (\<lambda>(k, a). distinct (map fst a)) g"

definition nonneg_weights :: "graph \<Rightarrow> bool" where
  "nonneg_weights g = list_all (\<lambda>(k, a). list_all (\<lambda>(n, pr). 0 \<le> weight_of pr) a) g"

subsection \<open>The priority queue\<close>

text \<open>
  A queue entry is the tuple \<^verbatim>\<open>(cost, node, path_nodes, path_directions)\<close>.
  \<^verbatim>\<open>heapq\<close> compares entries as Python compares tuples: lexicographically, the
  strings and the lists inside again lexicographically (a proper prefix is smaller),
  characters by code point. This is the linear order of the product and list types
  used here; bytewise comparison of UTF-8 agrees with comparison by code point.
  Two entries compare equal only when they are the same tuple, so which entries
  \<^verbatim>\<open>heappop\<close> returns, and in which order, depends only on the entries that are in
  the heap, not on their layout in the heap array. The queue is therefore kept as the
  sorted list of its entries: \<^verbatim>\<open>heappush\<close> inserts, \<^verbatim>\<open>heappop\<close>
  takes the head.
\<close>

type_synonym entry = "int \<times> string \<times> string list \<times> string list"

definition heappush :: "entry list \<Rightarrow> entry \<Rightarrow> entry list" where
  "heappush queue e = insort e queue"

datatype cost = Finite int | Infinite

type_synonym route = "cost \<times> string list \<times> string list"

text \<open>The \<^verbatim>\<open>for neighbor, properties in graph.get(node, {}).items()\<close> loop.\<close>

fun push_neighbors ::
  "adjacency \<Rightarrow> string set \<Rightarrow> int \<Rightarrow> string list \<Rightarrow> string list \<Rightarrow> entry list \<Rightarrow> entry list"
where
  "push_neighbors [] seen c pth dirs queue = queue"
| "push_neighbors ((neighbor, properties) # items) seen c pth dirs queue =
     push_neighbors items seen c pth dirs
       (if neighbor \<notin> seen
        then heappush queue
               (c + weight_of properties, neighbor, pth, dirs @ [direction_of properties])
        else queue)"

definition graph_targets :: "graph \<Rightarrow> string set" where
  "graph_targets g = (\<Union>(k, a) \<in> set g. fst ` set a)"

definition queue_nodes :: "entry list \<Rightarrow> string set" where
  "queue_nodes queue = (\<lambda>(c, node, pth, dirs). node) ` set queue"

lemma set_push_neighbors:
  "set (push_neighbors items seen c pth dirs queue) =
   set queue \<union>
   {(c + weight_of pr, n, pth, dirs @ [direction_of pr]) | n pr. (n, pr) \<in> set items \<and> n \<notin> seen}"
proof (induction items arbitrary: queue)
  case Nil
  show ?case by simp
next
  case (Cons x items)
  obtain m pm where x: "x = (m, pm)" by (cases x)
  show ?case
  proof (cases "m \<in> seen")
    case True
    then show ?thesis unfolding x by (simp add: Cons.IH) blast
  next
    case False
    then show ?thesis unfolding x
      by (simp add: Cons.IH heappush_def set_insort_key) blast
  qed
qed

lemma queue_nodes_push_neighbors:
  "queue_nodes (push_neighbors items seen c pth dirs queue) \<subseteq> fst ` set items \<union> queue_nodes queue"
proof
  fix n assume "n \<in> queue_nodes (push_neighbors items seen c pth dirs queue)"
  then obtain e where e: "e \<in> set (push_neighbors items seen c pth dirs queue)"
    and n: "n = (\<lambda>(c, node, pth, dirs). node) e"
    unfolding queue_nodes_def by blast
  from e consider "e \<in> set queue"
    | m pr where "e = (c + weight_of pr, m, pth, dirs @ [direction_of pr])" "(m, pr) \<in> set items"
    unfolding set_push_neighbors by blast
  then show "n \<in> fst ` set items \<union> queue_nodes queue"
  proof cases
    case 1
    then show ?thesis using n unfolding queue_nodes_def by blast
  next
    case 2
    then show ?thesis using n by force
  qed
qed

lemma graph_get_targets: "fst ` set (graph_get g node) \<subseteq> graph_targets g"
proof
  fix n assume "n \<in> fst ` set (graph_get g node)"
  then obtain pr where m: "(n, pr) \<in> set (graph_get g node)" by auto
  then obtain a where a: "map_of g node = Some a" and "(n, pr) \<in> set a"
    by (cases "map_of g node") (auto simp: graph_get_def)
  from a have "(node, a) \<in> set g" by (rule map_of_SomeD)
  with \<open>(n, pr) \<in> set a\<close> show "n \<in> graph_targets g"
    by (force simp: graph_targets_def)
qed

lemma finite_graph_targets: "finite (graph_targets g)"
  by (auto simp: graph_targets_def)

lemma finite_queue_nodes: "finite (queue_nodes queue)"
  by (simp add: queue_nodes_def)

lemma settle_measure:
  assumes "node \<notin> seen"
  shows "card ((graph_targets g \<union>
            queue_nodes (push_neighbors (graph_get g node) (insert node seen) c pth' dirs queue))
          - insert node seen)
       < card ((graph_targets g \<union> queue_nodes ((c, node, pth, dirs) # queue)) - seen)"
proof -
  let ?q' = "push_neighbors (graph_get g node) (insert node seen) c pth' dirs queue"
  let ?old = "(graph_targets g \<union> queue_nodes ((c, node, pth, dirs) # queue)) - seen"
  let ?new = "(graph_targets g \<union> queue_nodes ?q') - insert node seen"
  have "queue_nodes ?q' \<subseteq> graph_targets g \<union> queue_nodes queue"
    using queue_nodes_push_neighbors [of "graph_get g node" "insert node seen" c pth' dirs queue]
      graph_get_targets [of g node] by blast
  then have sub: "?new \<subseteq> ?old" by (auto simp: queue_nodes_def)
  have "node \<in> ?old" "node \<notin> ?new" using assms by (auto simp: queue_nodes_def)
  with sub have "?new \<subset> ?old" by blast
  moreover have "finite ?old"
    using finite_graph_targets finite_queue_nodes by blast
  ultimately show ?thesis by (rule psubset_card_mono [rotated])
qed

lemma skip_measure:
  assumes "node \<in> seen"
  shows "(graph_targets g \<union> queue_nodes ((c, node, pth, dirs) # queue)) - seen =
    (graph_targets g \<union> queue_nodes queue) - seen"
  using assms by (auto simp: queue_nodes_def)

text \<open>
  The \<^verbatim>\<open>while queue:\<close> loop of \<^verbatim>\<open>dijkstra\<close>. It ends: a pop either settles
  a node that was not seen before, and only finitely many nodes can ever be in the
  queue, or it shortens the queue.
\<close>

function dijkstra_loop :: "graph \<Rightarrow> string \<Rightarrow> entry list \<Rightarrow> string set \<Rightarrow> route" where
  "dijkstra_loop g end_node [] seen = (Infinite, [], [])"
| "dijkstra_loop g end_node ((c, node, pth, dirs) # queue) seen =
     (if node \<notin> seen then
        (if node = end_node then (Finite c, pth @ [node], dirs)
         else dijkstra_loop g end_node
                (push_neighbors (graph_get g node) (insert node seen) c (pth @ [node]) dirs queue)
                (insert node seen))
      else dijkstra_loop g end_node queue seen)"
  by pat_completeness auto
termination
  by (relation "measures
    [\<lambda>(g, end_node, queue, seen). card ((graph_targets g \<union> queue_nodes queue) - seen),
     \<lambda>(g, end_node, queue, seen). length queue]")
    (simp_all add: settle_measure skip_measure)

text \<open>\<^verbatim>\<open>dijkstra(graph, start, end)\<close>.\<close>

definition dijkstra :: "graph \<Rightarrow> string \<Rightarrow> string \<Rightarrow> route" where
  "dijkstra g start end_node = dijkstra_loop g end_node [(0, start, [], [])] {}"

subsection \<open>Paths of a graph\<close>

text \<open>
  The vocabulary of the routing properties. \<open>edge g u v\<close> is the property dict of the
  edge from \<open>u\<close> to \<open>v\<close>, that is \<^verbatim>\<open>graph.get(u, {}).get(v)\<close>. A path is a
  node sequence whose consecutive nodes are joined by edges; its weight is the sum of
  the weights of these edges and its directions are their instructions, in order.
  \<open>walk g start end_node nodes\<close>: \<open>nodes\<close> is a path from \<open>start\<close> to \<open>end_node\<close>,
  both included; the single node \<open>[start]\<close> is the path from \<open>start\<close> to itself.
\<close>

definition edge :: "graph \<Rightarrow> string \<Rightarrow> string \<Rightarrow> edge_props option" where
  "edge g u v = map_of (graph_get g u) v"

fun is_path :: "graph \<Rightarrow> string list \<Rightarrow> bool" where
  "is_path g (u # v # rest) = (edge g u v \<noteq> None \<and> is_path g (v # rest))"
| "is_path g nodes = True"

fun path_weight :: "graph \<Rightarrow> string list \<Rightarrow> int" where
  "path_weight g (u # v # rest) =
     (case edge g u v of None \<Rightarrow> 0 | Some pr \<Rightarrow> weight_of pr) + path_weight g (v # rest)"
| "path_weight g nodes = 0"

fun path_directions :: "graph \<Rightarrow> string list \<Rightarrow> string list" where
  "path_directions g (u # v # rest) =
     (case edge g u v of None \<Rightarrow> [] | Some pr \<Rightarrow> [direction_of pr]) @ path_directions g (v # rest)"
| "path_directions g nodes = []"

definition walk :: "graph \<Rightarrow> string \<Rightarrow> string \<Rightarrow> string list \<Rightarrow> bool" where
  "walk g start end_node nodes =
     (nodes \<noteq> [] \<and> hd nodes = start \<and> last nodes = end_node \<and> is_path g nodes)"

subsection \<open>Loop invariants of the router\<close>

text \<open>
  \<open>entry_ok\<close>: a queue entry records a path from the start to its node, with the weight
  and the directions of that path. \<open>frontier\<close>: every edge that leaves a settled node
  for an unsettled one has an entry in the queue that costs no more than any path to the
  settled node followed by that edge. \<open>start_pending\<close>: until the start node is
  settled, the queue holds an entry for it of cost at most 0.
\<close>

definition entry_ok :: "graph \<Rightarrow> string \<Rightarrow> entry \<Rightarrow> bool" where
  "entry_ok g start e =
     (case e of (c, node, pth, dirs) \<Rightarrow>
        walk g start node (pth @ [node]) \<and> path_weight g (pth @ [node]) = c \<and>
        path_directions g (pth @ [node]) = dirs)"

definition frontier :: "graph \<Rightarrow> string \<Rightarrow> entry list \<Rightarrow> string set \<Rightarrow> bool" where
  "frontier g start queue seen =
     (\<forall>nodes u n pr. walk g start u nodes \<and> u \<in> seen \<and> edge g u n = Some pr \<and> n \<notin> seen \<longrightarrow>
        (\<exists>c pth dirs. (c, n, pth, dirs) \<in> set queue \<and> c \<le> path_weight g nodes + weight_of pr))"

definition start_pending :: "string \<Rightarrow> entry list \<Rightarrow> string set \<Rightarrow> bool" where
  "start_pending start queue seen =
     (start \<notin> seen \<longrightarrow> (\<exists>c pth dirs. (c, start, pth, dirs) \<in> set queue \<and> c \<le> 0))"

definition loop_inv :: "graph \<Rightarrow> string \<Rightarrow> entry list \<Rightarrow> string set \<Rightarrow> bool" where
  "loop_inv g start queue seen =
     (sorted queue \<and> frontier g start queue seen \<and> start_pending start queue seen)"

definition entry_instr :: "graph \<Rightarrow> entry \<Rightarrow> bool" where
  "entry_instr g e =
     (case e of (c, node, pth, dirs) \<Rightarrow>
        length dirs = length pth \<and>
        (\<forall>i < length dirs. \<exists>pr. ((pth @ [node]) ! Suc i, pr) \<in> set (graph_get g ((pth @ [node]) ! i)) \<and>
           dirs ! i = direction_of pr))"

definition entry_walk :: "graph \<Rightarrow> string \<Rightarrow> entry \<Rightarrow> bool" where
  "entry_walk g start e = (case e of (c, node, pth, dirs) \<Rightarrow> walk g start node (pth @ [node]))"

text \<open>
  \<open>closed_inv\<close>: the end node is not settled, the start node is settled or queued, and
  every edge from a settled node leads to a settled or queued node.
\<close>

definition closed_inv :: "graph \<Rightarrow> string \<Rightarrow> string \<Rightarrow> entry list \<Rightarrow> string set \<Rightarrow> bool" where
  "closed_inv g start end_node queue seen =
     (end_node \<notin> seen \<and> (start \<in> seen \<or> start \<in> queue_nodes queue) \<and>
      (\<forall>u n. u \<in> seen \<and> edge g u n \<noteq> None \<longrightarrow> n \<in> seen \<or> n \<in> queue_nodes queue))"

subsection \<open>Example graphs\<close>

text \<open>
  The scenario of the specification, A to B (5, turn left) and B to C (5, go straight),
  and a graph with three routes from A to C, one of them over an edge without an
  explicit weight and direction.
\<close>

definition two_edge_graph :: graph where
  "two_edge_graph =
     [(''A'', [(''B'', \<lparr>weight = Some 5, direction = Some ''turn left''\<rparr>)]),
      (''B'', [(''C'', \<lparr>weight = Some 5, direction = Some ''go straight''\<rparr>)]),
      (''C'', [])]"

definition detour_graph :: graph where
  "detour_graph =
     [(''A'', [(''B'', \<lparr>weight = Some 5, direction = Some ''turn left''\<rparr>),
               (''C'', \<lparr>weight = Some 20, direction = None\<rparr>),
               (''D'', \<lparr>weight = None, direction = None\<rparr>)]),
      (''B'', [(''C'', \<lparr>weight = Some 5, direction = Some ''go straight''\<rparr>),
               (''A'', \<lparr>weight = Some 5, direction = Some ''go back''\<rparr>)]),
      (''D'', [(''C'', \<lparr>weight = Some 9, direction = Some ''cross the lawn''\<rparr>)]),
      (''C'', [])]"

section \<open>Strings and integers of the Python runtime\<close>

text \<open>
  A Python string is the \<^typ>\<open>string\<close> of the bytes of its UTF-8 encoding: equality,
  concatenation, \<^verbatim>\<open>sub in s\<close> (\<open>contains s sub\<close>) and the order of strings are
  the same on the bytes as on the code points. The built-in functions whose result
  depends on the character tables of Unicode or on the interpreter, that is
  \<^verbatim>\<open>str.lower\<close>, \<^verbatim>\<open>str.upper\<close>, \<^verbatim>\<open>str.strip\<close>, \<^verbatim>\<open>str.split\<close>
  and \<^verbatim>\<open>int\<close>, are not defined here: they are parameters of the model (fields of
  the record \<open>env\<close> below), so that every statement about the program holds for the
  built-ins of every interpreter.
\<close>

fun startswith :: "string \<Rightarrow> string \<Rightarrow> bool" where
  "startswith s [] = True"
| "startswith [] (p # ps) = False"
| "startswith (c # cs) (p # ps) = (c = p \<and> startswith cs ps)"

fun contains :: "string \<Rightarrow> string \<Rightarrow> bool" where
  "contains [] sub = (sub = [])"
| "contains (c # cs) sub = (startswith (c # cs) sub \<or> contains cs sub)"

text \<open>\<^verbatim>\<open>str(n)\<close> for a natural number, as an f-string prints it.\<close>

fun str_nat :: "nat \<Rightarrow> string" where
  "str_nat n =
     (if n < 10 then [''0123456789'' ! n] else str_nat (n div 10) @ [''0123456789'' ! (n mod 10)])"

declare str_nat.simps [simp del]

text \<open>\<^verbatim>\<open>xs.index(x)\<close>, called only when \<open>x\<close> is in \<open>xs\<close>.\<close>

fun index :: "'a list \<Rightarrow> 'a \<Rightarrow> nat" where
  "index [] x = 0"
| "index (y # ys) x = (if y = x then 0 else Suc (index ys x))"


section \<open>Intent classifier (chatbot\_app.py, lines 43--79)\<close>

text \<open>
  The dict \<^verbatim>\<open>knowledge_base\<close>, in the order of its literal.
\<close>

definition knowledge_base :: "(string \<times> string list) list" where
  "knowledge_base =
     [(''greeting'', [''hello'', ''hi'', ''hey'', ''greetings'', ''good morning'', ''good afternoon'']),
      (''goodbye'', [''bye'', ''goodbye'', ''see you'', ''take care'']),
      (''thanks'', [''thanks'', ''thank you'', ''appreciate it'']),
      (''about'', [''who are you'', ''what are you'', ''what can you do'']),
      (''navigate'', [''navigate'', ''find'', ''go to'', ''reach'', ''how to get to'', ''directions'']),
      (''teacher_info'', [''teacher'', ''faculty'', ''professor'', ''details of'', ''information on'', ''who is''])]"

text \<open>
  The TF-IDF vectorizer and the cosine similarity belong to scikit-learn. They enter
  the model as a parameter: \<open>sim a b\<close> stands for
  \<^verbatim>\<open>cosine_similarity(vectorizer.transform([a]), vectorizer.transform([b]))[0][0]\<close>.
  Its values are finite floating-point numbers, which the program only compares, so
  they are read as the real numbers they denote; no floating-point number lies
  strictly between the double \<^verbatim>\<open>0.3\<close> and the real \<open>3 / 10\<close>, so the
  comparison with the threshold is the comparison with \<open>3 / 10\<close>.
\<close>

type_synonym similarity = "string \<Rightarrow> string \<Rightarrow> real"

text \<open>The inner loop \<^verbatim>\<open>for phrase in phrases\<close> on the pair
  \<^verbatim>\<open>(max_similarity, best_intent)\<close>, and the outer loop over the intents.\<close>

fun scan_phrases :: "(string \<Rightarrow> real) \<Rightarrow> string \<Rightarrow> string list \<Rightarrow> real \<times> string \<Rightarrow> real \<times> string" where
  "scan_phrases sim_to intent [] best = best"
| "scan_phrases sim_to intent (phrase # phrases) (max_similarity, best_intent) =
     scan_phrases sim_to intent phrases
       (if sim_to phrase > max_similarity then (sim_to phrase, intent)
        else (max_similarity, best_intent))"

fun scan_intents :: "(string \<Rightarrow> real) \<Rightarrow> (string \<times> string list) list \<Rightarrow> real \<times> string \<Rightarrow> real \<times> string" where
  "scan_intents sim_to [] best = best"
| "scan_intents sim_to ((intent, phrases) # items) best =
     scan_intents sim_to items (scan_phrases sim_to intent phrases best)"

text \<open>
  \<^verbatim>\<open>get_intent(user_input)\<close>; \<open>lower\<close> is the \<^verbatim>\<open>str.lower\<close> of the
  interpreter.
\<close>

definition get_intent :: "(string \<Rightarrow> string) \<Rightarrow> similarity \<Rightarrow> string \<Rightarrow> string" where
  "get_intent lower sim user_input =
     (case scan_intents (sim (lower user_input)) knowledge_base (0, ''unknown'') of
        (max_similarity, best_intent) \<Rightarrow>
          if max_similarity > 3 / 10 then best_intent else ''unknown'')"

text \<open>All (intent, phrase) pairs in the order in which the two loops visit them.\<close>

definition phrase_pairs :: "(string \<times> string list) list \<Rightarrow> (string \<times> string) list" where
  "phrase_pairs kb = concat (map (\<lambda>(intent, phrases). map (\<lambda>phrase. (intent, phrase)) phrases) kb)"

text \<open>One turn of the inner loop, on a pair of this list.\<close>

fun scan_step :: "(string \<Rightarrow> real) \<Rightarrow> string \<times> string \<Rightarrow> real \<times> string \<Rightarrow> real \<times> string" where
  "scan_step sim_to (intent, phrase) (max_similarity, best_intent) =
     (if sim_to phrase > max_similarity then (sim_to phrase, intent)
      else (max_similarity, best_intent))"


section \<open>Dialog controller (chatbot\_app.py, lines 82--111 and 138--311)\<close>

subsection \<open>Data\<close>

text \<open>
  A directory entry as \<^verbatim>\<open>find_teacher_by_name\<close> returns it, with its seven keys.
\<close>

record teacher =
  firstName :: string
  lastName :: string
  phone :: string
  email :: string
  cabin :: string
  building :: string
  department :: string

text \<open>
  The dialog state is the string under the key \<^verbatim>\<open>"state"\<close>; the program only ever
  stores the four literals below. A session is a dict: a key that may be absent is an
  option. \<^verbatim>\<open>current_step\<close> only ever holds 0 and its successors.
\<close>

datatype dialog_state = idle | navigation_confirm | teacher_selection | navigate_to_teacher_confirm

record session =
  state :: dialog_state
  current_step :: "nat option"
  path :: "string list option"
  directions :: "string list option"
  teachers :: "teacher list option"
  teacher_cabin :: "string option"

type_synonym sessions = "string \<rightharpoonup> session"

definition new_session :: session where
  "new_session =
     \<lparr>state = idle, current_step = None, path = None, directions = None, teachers = None,
      teacher_cabin = None\<rparr>"

text \<open>
  What the program reads of a spaCy document: the texts of its tokens, and the text and
  the label of each entity.
\<close>

record doc =
  tokens :: "string list"
  ents :: "(string \<times> string) list"

text \<open>
  What the controller takes from outside the program. The built-ins of the interpreter:
  \<^verbatim>\<open>s.lower()\<close>, \<^verbatim>\<open>s.upper()\<close>, \<^verbatim>\<open>s.strip()\<close>, \<^verbatim>\<open>s.split()\<close>
  and \<^verbatim>\<open>int(s)\<close> (\<open>None\<close> is the \<^verbatim>\<open>ValueError\<close>). The function
  \<^verbatim>\<open>toLower\<close> of the query language of the database. The spaCy pipeline
  \<^verbatim>\<open>nlp\<close> and the similarity of the classifier. The content of the graph database
  as the three queries of the program see it: the names of the \<^verbatim>\<open>Location\<close>
  nodes, the \<^verbatim>\<open>CONNECTED_TO\<close> relationships as (source, target, weight,
  direction), and the \<^verbatim>\<open>Teacher\<close> nodes.
\<close>

record env =
  str_lower :: "string \<Rightarrow> string"
  str_upper :: "string \<Rightarrow> string"
  str_strip :: "string \<Rightarrow> string"
  str_split :: "string \<Rightarrow> string list"
  py_int :: "string \<Rightarrow> int option"
  toLower :: "string \<Rightarrow> string"
  nlp :: "string \<Rightarrow> doc"
  cosine :: similarity
  location_names :: "string list"
  connected_to :: "(string \<times> string \<times> int \<times> string) list"
  teacher_nodes :: "teacher list"

datatype py_error = IndexError | KeyError

subsection \<open>Database access (lines 82--111)\<close>

definition find_teacher_by_name :: "env \<Rightarrow> string \<Rightarrow> teacher list" where
  "find_teacher_by_name env first_name =
     filter (\<lambda>t. toLower env (firstName t) = toLower env first_name) (teacher_nodes env)"

text \<open>\<^verbatim>\<open>graph[node['name']] = {}\<close>\<close>

definition add_node :: "string \<Rightarrow> graph \<Rightarrow> graph" where
  "add_node name g = AList.update name [] g"

text \<open>The body of \<^verbatim>\<open>for rel in rels\<close>.\<close>

definition add_rel :: "string \<times> string \<times> int \<times> string \<Rightarrow> graph \<Rightarrow> graph" where
  "add_rel rel g =
     (case rel of (source, target, w, d) \<Rightarrow>
        let g1 = (if map_of g source = None then AList.update source [] g else g)
        in AList.update source
             (AList.update target \<lparr>weight = Some w, direction = Some d\<rparr> (graph_get g1 source)) g1)"

definition build_graph_from_neo4j :: "env \<Rightarrow> graph" where
  "build_graph_from_neo4j env =
     fold add_rel (connected_to env) (fold add_node (location_names env) [])"

text \<open>
  \<open>props_ok P g\<close>: the adjacency lists of \<open>g\<close> have pairwise different keys, and
  every property dict in them satisfies \<open>P\<close>.
\<close>

definition props_ok :: "(edge_props \<Rightarrow> bool) \<Rightarrow> graph \<Rightarrow> bool" where
  "props_ok P g = (\<forall>(k, a) \<in> set g. distinct (map fst a) \<and> (\<forall>(n, pr) \<in> set a. P pr))"

subsection \<open>Navigation start (lines 266--311)\<close>

text \<open>
  Lines 270--285: the start and the end node that the handler extracts from the
  document. An \<^verbatim>\<open>IndexError\<close> of the token scan is caught; the assignments made
  before it stay.
\<close>

definition start_end_nodes :: "env \<Rightarrow> doc \<Rightarrow> string option \<times> string option" where
  "start_end_nodes env doc =
     (let locations = [str_upper env text. (text, label) \<leftarrow> ents doc,
                         label \<in> set [''GPE'', ''LOC'', ''ORG'', ''FAC'']];
          text_tokens = tokens doc
      in if ''from'' \<in> set text_tokens \<and> ''to'' \<in> set text_tokens then
           (let from_index = index text_tokens ''from'';
                to_index = index text_tokens ''to''
            in if from_index + 1 < length text_tokens then
                 (if to_index + 1 < length text_tokens
                  then (Some (str_upper env (text_tokens ! (from_index + 1))),
                        Some (str_upper env (text_tokens ! (to_index + 1))))
                  else (Some (str_upper env (text_tokens ! (from_index + 1))), None))
               else (None, None))
         else if length locations \<ge> 2 then (Some (locations ! 0), Some (locations ! 1))
         else (None, None))"

text \<open>The truth value of \<^verbatim>\<open>start_node\<close> or \<^verbatim>\<open>end_node\<close> in a condition.\<close>

definition truthy :: "string option \<Rightarrow> bool" where
  "truthy v = (case v of None \<Rightarrow> False | Some s \<Rightarrow> s \<noteq> [])"

definition unrecognized_reply :: "string \<Rightarrow> string \<Rightarrow> string" where
  "unrecognized_reply start_node end_node =
     ''Sorry, I don't recognize one of the locations: '' @ start_node @ '' or '' @ end_node @
     ''. Please use known location names.''"

definition no_path_reply :: "string \<Rightarrow> string \<Rightarrow> string" where
  "no_path_reply start_node end_node =
     ''I'm sorry, I couldn't find a path from '' @ start_node @ '' to '' @ end_node @ ''.''"

definition navigation_help_reply :: string where
  "navigation_help_reply =
     ''I can help with navigation. Please tell me where you are starting from and where you want to go, for example: 'Navigate from AB1-101 to AB2-205'.''"

definition navigation_start_reply :: "string \<Rightarrow> string \<Rightarrow> string \<Rightarrow> string \<Rightarrow> string" where
  "navigation_start_reply start_node end_node first_direction first_destination =
     ''Okay, starting navigation from '' @ start_node @ '' to '' @ end_node @ ''. First, '' @
     first_direction @ '' to reach '' @ first_destination @ ''. Let me know when you're there.''"

text \<open>
  A handler returns its reply, or the exception that leaves it, together with the
  session store as it is then. The assignments to the session precede the reads
  \<^verbatim>\<open>directions[0]\<close> and \<^verbatim>\<open>path[1]\<close>, so they stay when a read raises.
\<close>

type_synonym reply = "(py_error + string) \<times> sessions"

definition handle_navigation :: "env \<Rightarrow> sessions \<Rightarrow> doc \<Rightarrow> string \<Rightarrow> reply" where
  "handle_navigation env user_sessions doc user_id =
     (case start_end_nodes env doc of (start_opt, end_opt) \<Rightarrow>
        if truthy start_opt \<and> truthy end_opt then
          (let start_node = the start_opt; end_node = the end_opt;
               campus_graph = build_graph_from_neo4j env
           in if map_of campus_graph start_node = None \<or> map_of campus_graph end_node = None
              then (Inr (unrecognized_reply start_node end_node), user_sessions)
              else
                (case dijkstra campus_graph start_node end_node of (c, pth, dirs) \<Rightarrow>
                   if pth \<noteq> [] then
                     (case user_sessions user_id of
                        None \<Rightarrow> (Inl KeyError, user_sessions)
                      | Some session \<Rightarrow>
                          let sessions' = user_sessions(user_id \<mapsto>
                                session\<lparr>state := navigation_confirm, path := Some pth,
                                  directions := Some dirs, current_step := Some 0\<rparr>)
                          in if dirs = [] then (Inl IndexError, sessions')
                             else if length pth < 2 then (Inl IndexError, sessions')
                             else (Inr (navigation_start_reply start_node end_node
                                          (dirs ! 0) (pth ! 1)), sessions'))
                   else (Inr (no_path_reply start_node end_node), user_sessions)))
        else (Inr navigation_help_reply, user_sessions))"

subsection \<open>The chat endpoint (lines 153--263)\<close>

definition teacher_details :: "teacher \<Rightarrow> string" where
  "teacher_details t =
     ''Here are the details for '' @ firstName t @ '' '' @ lastName t @ '':\<newline>'' @
     ''Email: '' @ email t @ ''\<newline>'' @
     ''Phone: '' @ phone t @ ''\<newline>'' @
     ''Cabin: '' @ cabin t @ '' in '' @ building t @ ''\<newline>'' @
     ''Department: '' @ department t @ ''.\<newline>\<newline>'' @
     ''Would you like me to navigate you to their cabin?''"

definition teacher_list_reply :: "teacher list \<Rightarrow> string" where
  "teacher_list_reply ts =
     ''I found multiple teachers with that name. Please choose one:\<newline>'' @
     concat (map (\<lambda>(i, t). str_nat (i + 1) @ ''. '' @ firstName t @ '' '' @ lastName t @
                            '' ('' @ department t @ '')\<newline>'') (enumerate 0 ts))"

definition next_step_reply :: "string \<Rightarrow> string \<Rightarrow> string" where
  "next_step_reply direction_text next_node =
     ''Great! Now, '' @ direction_text @ '' to reach '' @ next_node @
     ''. Let me know when you've reached.''"

text \<open>The condition of line 169.\<close>

definition affirms :: "env \<Rightarrow> string \<Rightarrow> bool" where
  "affirms env message =
     (contains (str_lower env message) ''yes'' \<or> contains (str_lower env message) ''ok'' \<or>
      contains (str_lower env message) ''reached'')"

text \<open>
  \<^verbatim>\<open>chat\<close> takes the session store and the two fields of the JSON request
  (\<open>None\<close>: the field is absent) and returns the reply or the exception, the session
  store afterwards, and the arguments of its calls of \<^verbatim>\<open>get_intent\<close>, in order.
\<close>

type_synonym chat_result = "(py_error + string) \<times> sessions \<times> string list"

text \<open>Lines 218--263, the intent-based logic that \<^verbatim>\<open>chat\<close> ends with.\<close>

definition intent_logic :: "env \<Rightarrow> sessions \<Rightarrow> string \<Rightarrow> string \<Rightarrow> session \<Rightarrow> chat_result" where
  "intent_logic env user_sessions user_id message session =
     (let intent = get_intent (str_lower env) (cosine env) message;
          doc = nlp env message
      in if intent = ''greeting'' then
           (Inr ''Hello! How can I help you today? You can ask me for directions or information about teachers.'',
            user_sessions, [message])
         else if intent = ''goodbye'' then
           (Inr ''Goodbye! Have a great day.'', user_sessions, [message])
         else if intent = ''thanks'' then
           (Inr ''You're welcome!'', user_sessions, [message])
         else if intent = ''about'' then
           (Inr ''I am a friendly AI assistant. I can help you navigate the campus and find information about faculty members.'',
            user_sessions, [message])
         else if intent = ''navigate'' then
           (case handle_navigation env user_sessions doc user_id of
              (r, sessions') \<Rightarrow> (r, sessions', [message]))
         else if intent = ''teacher_info'' then
           (let names = [text. (text, label) \<leftarrow> ents doc, label = ''PERSON'']
            in if names \<noteq> [] then
                 (case str_split env (names ! 0) of
                    [] \<Rightarrow> (Inl IndexError, user_sessions, [message])
                  | first_name # _ \<Rightarrow>
                      let found = find_teacher_by_name env first_name
                      in if found = [] then
                           (Inr (''I couldn't find any teacher named '' @ first_name @ ''.''),
                            user_sessions, [message])
                         else if length found = 1 then
                           (Inr (teacher_details (found ! 0)),
                            user_sessions(user_id \<mapsto>
                              session\<lparr>state := navigate_to_teacher_confirm,
                                teacher_cabin := Some (cabin (found ! 0))\<rparr>),
                            [message])
                         else
                           (Inr (teacher_list_reply found),
                            user_sessions(user_id \<mapsto>
                              session\<lparr>state := teacher_selection, teachers := Some found\<rparr>),
                            [message]))
               else
                 (Inr ''I can help with teacher details. Who are you looking for?'',
                  user_sessions, [message]))
         else
           (Inr (''I'm not sure how to help with that. You can ask me for directions like 'navigate from ab1 303 to ab2 112' or 'who is [teacher's name]?'' @ [CHR 0x27]),
            user_sessions, [message]))"

definition chat :: "env \<Rightarrow> sessions \<Rightarrow> string option \<Rightarrow> string option \<Rightarrow> chat_result" where
  "chat env user_sessions0 user_id_field message_field =
     (let user_id = (case user_id_field of None \<Rightarrow> ''default_user'' | Some u \<Rightarrow> u);
          message = str_strip env (case message_field of None \<Rightarrow> [] | Some m \<Rightarrow> m);
          session = (case user_sessions0 user_id of None \<Rightarrow> new_session | Some s \<Rightarrow> s);
          user_sessions = (case user_sessions0 user_id of
                             None \<Rightarrow> user_sessions0(user_id \<mapsto> new_session)
                           | Some s \<Rightarrow> user_sessions0)
      in case state session of
           navigation_confirm \<Rightarrow>
             (if affirms env message then
                (let step = (case current_step session of None \<Rightarrow> 0 | Some k \<Rightarrow> k);
                     pth = (case path session of None \<Rightarrow> [] | Some p \<Rightarrow> p);
                     dirs = (case directions session of None \<Rightarrow> [] | Some d \<Rightarrow> d)
                 in if step + 1 < length pth then
                      (if step < length dirs then
                         (case current_step session of
                            None \<Rightarrow> (Inl KeyError, user_sessions, [])
                          | Some k \<Rightarrow>
                              (Inr (next_step_reply (dirs ! step) (pth ! (step + 1))),
                               user_sessions(user_id \<mapsto> session\<lparr>current_step := Some (k + 1)\<rparr>),
                               []))
                       else (Inl IndexError, user_sessions, []))
                    else
                      (Inr ''You have arrived at your destination!'',
                       user_sessions(user_id \<mapsto> session\<lparr>state := idle\<rparr>), []))
              else
                (Inr ''Okay, I'll wait. Just say 'yes' or 'reached' when you get there.'',
                 user_sessions, []))
         | teacher_selection \<Rightarrow>
             (case py_int env message of
                None \<Rightarrow> (Inr ''Please enter a number to choose a teacher.'', user_sessions, [])
              | Some n \<Rightarrow>
                  (let choice = n - 1;
                       ts = (case teachers session of None \<Rightarrow> [] | Some l \<Rightarrow> l)
                   in if 0 \<le> choice \<and> choice < int (length ts) then
                        (Inr (teacher_details (ts ! nat choice)),
                         user_sessions(user_id \<mapsto>
                           session\<lparr>state := navigate_to_teacher_confirm,
                             teacher_cabin := Some (cabin (ts ! nat choice))\<rparr>),
                         [])
                      else
                        (Inr ''That's not a valid choice. Please pick a number from the list.'',
                         user_sessions, [])))
         | navigate_to_teacher_confirm \<Rightarrow>
             (if contains (str_lower env message) ''yes'' then
                (case teacher_cabin session of
                   None \<Rightarrow> (Inl KeyError, user_sessions, [])
                 | Some c \<Rightarrow>
                     (case handle_navigation env user_sessions
                             (nlp env (''go from my current location to '' @ c)) user_id of
                        (r, sessions') \<Rightarrow> (r, sessions', [])))
              else
                (Inr ''Alright. Let me know if you need anything else!'',
                 user_sessions(user_id \<mapsto> session\<lparr>state := idle\<rparr>), []))
         | idle \<Rightarrow> intent_logic env user_sessions user_id message session)"

subsection \<open>Session invariant\<close>

text \<open>
  What the program maintains for every stored session: in \<^verbatim>\<open>navigation_confirm\<close>
  the session holds a route (a node sequence one longer than its instruction sequence)
  and a step inside it, and in \<^verbatim>\<open>navigate_to_teacher_confirm\<close> it holds a cabin.
\<close>

definition route_payload :: "session \<Rightarrow> bool" where
  "route_payload s =
     (case (path s, directions s, current_step s) of
        (Some p, Some d, Some k) \<Rightarrow> length p = length d + 1 \<and> k < length p
      | _ \<Rightarrow> False)"

definition session_ok :: "session \<Rightarrow> bool" where
  "session_ok s =
     ((state s = navigation_confirm \<longrightarrow> route_payload s) \<and>
      (state s = navigate_to_teacher_confirm \<longrightarrow> teacher_cabin s \<noteq> None))"

definition sessions_ok :: "sessions \<Rightarrow> bool" where
  "sessions_ok user_sessions = (\<forall>u s. user_sessions u = Some s \<longrightarrow> session_ok s)"

section \<open>Example data\<close>

text \<open>
  Concrete collaborators for the evaluations below. They stand in for the real ones on
  the inputs of the evaluations, which are ASCII text: case mapping of the letters A to
  Z, white space as the ASCII white space characters, and \<open>ascii_int\<close>, which reads
  an optionally signed decimal numeral with single underscores between its digits,
  surrounded by white space.
\<close>

definition ascii_uppercase :: string where
  "ascii_uppercase = ''ABCDEFGHIJKLMNOPQRSTUVWXYZ''"

definition ascii_lowercase :: string where
  "ascii_lowercase = ''abcdefghijklmnopqrstuvwxyz''"

definition lower_char :: "char \<Rightarrow> char" where
  "lower_char c =
     (case map_of (zip ascii_uppercase ascii_lowercase) c of None \<Rightarrow> c | Some l \<Rightarrow> l)"

definition upper_char :: "char \<Rightarrow> char" where
  "upper_char c =
     (case map_of (zip ascii_lowercase ascii_uppercase) c of None \<Rightarrow> c | Some u \<Rightarrow> u)"

definition ascii_lower :: "string \<Rightarrow> string" where
  "ascii_lower s = map lower_char s"

definition ascii_upper :: "string \<Rightarrow> string" where
  "ascii_upper s = map upper_char s"

definition ascii_space :: "char \<Rightarrow> bool" where
  "ascii_space c =
     (c \<in> set [CHR '' '', CHR 0x09, CHR 0x0A, CHR 0x0B, CHR 0x0C, CHR 0x0D,
                CHR 0x1C, CHR 0x1D, CHR 0x1E, CHR 0x1F])"

definition ascii_strip :: "string \<Rightarrow> string" where
  "ascii_strip s = rev (dropWhile ascii_space (rev (dropWhile ascii_space s)))"

fun split_from :: "string \<Rightarrow> string \<Rightarrow> string list" where
  "split_from word [] = (if word = [] then [] else [word])"
| "split_from word (c # cs) =
     (if ascii_space c then (if word = [] then split_from [] cs else word # split_from [] cs)
      else split_from (word @ [c]) cs)"

definition ascii_split :: "string \<Rightarrow> string list" where
  "ascii_split s = split_from [] s"

definition digit_value :: "char \<Rightarrow> nat option" where
  "digit_value c = map_of (zip ''0123456789'' [0, 1, 2, 3, 4, 5, 6, 7, 8, 9]) c"

fun digits_value :: "string \<Rightarrow> nat \<Rightarrow> nat option" where
  "digits_value [] acc = Some acc"
| "digits_value (c # cs) acc =
     (case digit_value c of
        Some v \<Rightarrow> digits_value cs (10 * acc + v)
      | None \<Rightarrow>
          (if c = CHR ''_'' \<and> cs \<noteq> [] \<and> digit_value (hd cs) \<noteq> None
           then digits_value cs acc else None))"

definition ascii_int :: "string \<Rightarrow> int option" where
  "ascii_int s =
     (let t = ascii_strip s;
          negative = (t \<noteq> [] \<and> hd t = CHR ''-'');
          body = (if t \<noteq> [] \<and> (hd t = CHR ''-'' \<or> hd t = CHR ''+'') then tl t else t)
      in if body \<noteq> [] \<and> digit_value (hd body) \<noteq> None
         then map_option (\<lambda>n. if negative then - int n else int n) (digits_value body 0)
         else None)"

text \<open>
  A tokenizer that splits at white space and finds no entities, a similarity that is
  1/2 when the phrase occurs in the text and 0 otherwise, a small campus and the three
  teachers of \<^verbatim>\<open>setup_data\<close>.
\<close>

definition words_doc :: "string \<Rightarrow> doc" where
  "words_doc text = \<lparr>tokens = ascii_split text, ents = []\<rparr>"

definition phrase_in_text :: similarity where
  "phrase_in_text a b = (if contains a b then 1 / 2 else 0)"

definition sample_teachers :: "teacher list" where
  "sample_teachers =
     [\<lparr>firstName = ''Aayush'', lastName = ''Sharma'', phone = ''9876543210'',
        email = ''Aayush.sharma@university.edu'', cabin = ''AB1_303'', building = ''AB1'',
        department = ''Computer Science''\<rparr>,
      \<lparr>firstName = ''Sneha'', lastName = ''Verma'', phone = ''8765432109'',
        email = ''sneha.verma@university.edu'', cabin = ''AB2_112'', building = ''AB2'',
        department = ''Electronics''\<rparr>,
      \<lparr>firstName = ''Aarav'', lastName = ''Gupta'', phone = ''7654321098'',
        email = ''aarav.gupta@university.edu'', cabin = ''AB2_112'', building = ''AB2'',
        department = ''Mechanical''\<rparr>]"

definition campus :: env where
  "campus = \<lparr>str_lower = ascii_lower, str_upper = ascii_upper, str_strip = ascii_strip,
     str_split = ascii_split, py_int = ascii_int, toLower = ascii_lower,
     nlp = words_doc, cosine = phrase_in_text,
     location_names = [''GATE'', ''LIBRARY'', ''AB1_303'', ''ANNEX''],
     connected_to = [(''GATE'', ''LIBRARY'', 15, ''take the path on your right''),
                     (''LIBRARY'', ''AB1_303'', 10, ''go straight down the corridor''),
                     (''LIBRARY'', ''GATE'', 15, ''go back towards GATE'')],
     teacher_nodes = sample_teachers\<rparr>"

text \<open>
  Sessions in the three dialog states: a route of three nodes at step \<open>k\<close>, the three
  teachers as candidates, and a pending cabin.
\<close>

definition route_session :: "nat \<Rightarrow> session" where
  "route_session k =
     new_session\<lparr>state := navigation_confirm,
       path := Some [''GATE'', ''LIBRARY'', ''AB1_303''],
       directions := Some [''take the path on your right'', ''go straight down the corridor''],
       current_step := Some k\<rparr>"

definition selection_session :: session where
  "selection_session = new_session\<lparr>state := teacher_selection, teachers := Some sample_teachers\<rparr>"

definition cabin_session :: "string \<Rightarrow> session" where
  "cabin_session c = new_session\<lparr>state := navigate_to_teacher_confirm, teacher_cabin := Some c\<rparr>"
section \<open>Properties of the path router\<close>

subsection \<open>Paths that grow at their end\<close>

lemma is_path_snoc:
  "is_path g (nodes @ [u, v]) = (is_path g (nodes @ [u]) \<and> edge g u v \<noteq> None)"
  by (induction g nodes rule: is_path.induct) auto

lemma path_weight_snoc:
  "path_weight g (nodes @ [u, v]) =
   path_weight g (nodes @ [u]) + (case edge g u v of None \<Rightarrow> 0 | Some pr \<Rightarrow> weight_of pr)"
  by (induction g nodes rule: path_weight.induct) auto

lemma path_directions_snoc:
  "path_directions g (nodes @ [u, v]) =
   path_directions g (nodes @ [u]) @ (case edge g u v of None \<Rightarrow> [] | Some pr \<Rightarrow> [direction_of pr])"
  by (induction g nodes rule: path_directions.induct) auto

lemma edge_member:
  assumes "dict_graph g" "(n, pr) \<in> set (graph_get g u)"
  shows "edge g u n = Some pr"
proof -
  have "distinct (map fst (graph_get g u))"
  proof (cases "map_of g u")
    case None then show ?thesis by (simp add: graph_get_def)
  next
    case (Some a)
    then have "(u, a) \<in> set g" by (rule map_of_SomeD)
    with assms(1) show ?thesis using Some by (auto simp: dict_graph_def graph_get_def list_all_iff)
  qed
  with assms(2) show ?thesis unfolding edge_def by simp
qed

lemma edge_nonneg:
  assumes "nonneg_weights g" "edge g u n = Some pr"
  shows "0 \<le> weight_of pr"
proof -
  from assms(2) have m: "(n, pr) \<in> set (graph_get g u)" unfolding edge_def by (rule map_of_SomeD)
  then obtain a where a: "map_of g u = Some a" "(n, pr) \<in> set a"
    by (cases "map_of g u") (auto simp: graph_get_def)
  from a(1) have "(u, a) \<in> set g" by (rule map_of_SomeD)
  with assms(1) a(2) show ?thesis by (auto simp: nonneg_weights_def list_all_iff)
qed

lemma walk_single: "walk g start u [v] = (v = start \<and> v = u)"
  by (auto simp: walk_def)

lemma walk_snoc:
  "walk g start t (nodes @ [u, t']) = (walk g start u (nodes @ [u]) \<and> edge g u t' \<noteq> None \<and> t' = t)"
proof -
  have "hd (nodes @ [u, t']) = hd (nodes @ [u])" by (cases nodes) auto
  then show ?thesis by (auto simp: walk_def is_path_snoc)
qed

lemma path_weight_nonneg:
  "nonneg_weights g \<Longrightarrow> 0 \<le> path_weight g nodes"
proof (induction g nodes rule: path_weight.induct)
  case (1 g u v rest)
  show ?case
  proof (cases "edge g u v")
    case None
    with 1 show ?thesis by simp
  next
    case (Some pr)
    with 1 edge_nonneg [OF "1.prems" Some] show ?thesis by simp
  qed
qed auto

subsection \<open>The popped entry is a shortest path\<close>

text \<open>
  Under the invariant, every path from the start to an unsettled node weighs at least
  as much as some queue entry of an unsettled node costs: follow the path to the first
  edge that leaves the settled nodes.
\<close>

lemma queue_lower_bound:
  assumes nn: "nonneg_weights g"
    and fr: "frontier g start queue seen" and sp: "start_pending start queue seen"
  shows "walk g start t nodes \<Longrightarrow> t \<notin> seen \<Longrightarrow>
    \<exists>c n pth dirs. (c, n, pth, dirs) \<in> set queue \<and> n \<notin> seen \<and> c \<le> path_weight g nodes"
proof (induction nodes arbitrary: t rule: rev_induct)
  case Nil
  then show ?case by (simp add: walk_def)
next
  case (snoc x nodes)
  show ?case
  proof (cases nodes rule: rev_cases)
    case Nil
    with snoc.prems have "x = start" "t = start" by (auto simp: walk_single)
    with snoc.prems(2) sp Nil show ?thesis by (auto simp: start_pending_def)
  next
    case (snoc pre u)
    with snoc.prems(1) have w: "walk g start u (pre @ [u])" and e: "edge g u x \<noteq> None" and x: "x = t"
      by (auto simp: walk_snoc)
    from e obtain pr where pr: "edge g u x = Some pr" by auto
    have pw: "path_weight g (nodes @ [x]) = path_weight g (pre @ [u]) + weight_of pr"
      using snoc pr by (simp add: path_weight_snoc)
    show ?thesis
    proof (cases "u \<in> seen")
      case True
      with fr w pr x snoc.prems(2)
      obtain c pth dirs where "(c, x, pth, dirs) \<in> set queue" "c \<le> path_weight g (pre @ [u]) + weight_of pr"
        unfolding frontier_def by blast
      with pw x snoc.prems(2) show ?thesis by auto
    next
      case False
      from snoc.IH [unfolded snoc, OF w False]
      obtain c n pth dirs where "(c, n, pth, dirs) \<in> set queue" "n \<notin> seen" "c \<le> path_weight g (pre @ [u])"
        by blast
      moreover have "0 \<le> weight_of pr" using nn pr by (rule edge_nonneg)
      ultimately show ?thesis using pw by (intro exI [of _ c] exI [of _ n] exI [of _ pth] exI [of _ dirs]) auto
    qed
  qed
qed

lemma entry_le_cost:
  fixes c c' :: int and n n' :: string and p p' d d' :: "string list"
  shows "(c, n, p, d) \<le> (c', n', p', d') \<Longrightarrow> c \<le> c'"
  by (auto simp: less_eq_prod_def)

lemma head_minimal:
  fixes queue :: "entry list"
  assumes "sorted ((c, node, pth, dirs) # queue)" "(c', n, p, d) \<in> set ((c, node, pth, dirs) # queue)"
  shows "c \<le> c'"
proof (cases "(c', n, p, d) = (c, node, pth, dirs)")
  case True
  then show ?thesis by simp
next
  case False
  with assms have "(c, node, pth, dirs) \<le> (c', n, p, d)" by auto
  then show ?thesis by (rule entry_le_cost)
qed

lemma sorted_push_neighbors:
  "sorted queue \<Longrightarrow> sorted (push_neighbors items seen c pth dirs queue)"
  by (induction items arbitrary: queue) (auto simp: heappush_def sorted_insort)

lemma popped_optimal:
  assumes nn: "nonneg_weights g"
    and inv: "loop_inv g start ((c, node, pth, dirs) # queue) seen"
    and unseen: "node \<notin> seen" and w: "walk g start node nodes"
  shows "c \<le> path_weight g nodes"
proof -
  from inv have fr: "frontier g start ((c, node, pth, dirs) # queue) seen"
    and sp: "start_pending start ((c, node, pth, dirs) # queue) seen"
    and so: "sorted ((c, node, pth, dirs) # queue)"
    by (simp_all add: loop_inv_def)
  from queue_lower_bound [OF nn fr sp w unseen]
  obtain c' n p d where m: "(c', n, p, d) \<in> set ((c, node, pth, dirs) # queue)"
    and le: "c' \<le> path_weight g nodes" by blast
  from head_minimal [OF so m] le show ?thesis by simp
qed

lemma inv_skip:
  assumes inv: "loop_inv g start ((c, node, pth, dirs) # queue) seen" and seen: "node \<in> seen"
  shows "loop_inv g start queue seen"
proof -
  have "sorted queue" using inv by (simp add: loop_inv_def)
  moreover have "frontier g start queue seen"
    unfolding frontier_def
  proof (intro allI impI)
    fix nodes u n pr
    assume a: "walk g start u nodes \<and> u \<in> seen \<and> edge g u n = Some pr \<and> n \<notin> seen"
    with inv obtain c' p d where m: "(c', n, p, d) \<in> set ((c, node, pth, dirs) # queue)"
      and le: "c' \<le> path_weight g nodes + weight_of pr"
      unfolding loop_inv_def frontier_def by blast
    from a seen have "n \<noteq> node" by auto
    with m have "(c', n, p, d) \<in> set queue" by auto
    with le show "\<exists>c pth dirs. (c, n, pth, dirs) \<in> set queue \<and> c \<le> path_weight g nodes + weight_of pr"
      by blast
  qed
  moreover have "start_pending start queue seen"
    unfolding start_pending_def
  proof
    assume a: "start \<notin> seen"
    with inv obtain c' p d where m: "(c', start, p, d) \<in> set ((c, node, pth, dirs) # queue)"
      and le: "c' \<le> 0"
      unfolding loop_inv_def start_pending_def by blast
    from a seen have "start \<noteq> node" by auto
    with m have "(c', start, p, d) \<in> set queue" by auto
    with le show "\<exists>c pth dirs. (c, start, pth, dirs) \<in> set queue \<and> c \<le> 0" by blast
  qed
  ultimately show ?thesis by (simp add: loop_inv_def)
qed

lemma entry_ok_extend:
  assumes ok: "entry_ok g start (c, node, pth, dirs)" and e: "edge g node n = Some pr"
  shows "entry_ok g start (c + weight_of pr, n, pth @ [node], dirs @ [direction_of pr])"
  using assms
  by (simp add: entry_ok_def walk_snoc path_weight_snoc path_directions_snoc)

lemma inv_settle:
  assumes nn: "nonneg_weights g"
    and inv: "loop_inv g start ((c, node, pth, dirs) # queue) seen" and unseen: "node \<notin> seen"
  shows "loop_inv g start
           (push_neighbors (graph_get g node) (insert node seen) c (pth @ [node]) dirs queue)
           (insert node seen)"
proof -
  let ?q' = "push_neighbors (graph_get g node) (insert node seen) c (pth @ [node]) dirs queue"
  have sub: "set queue \<subseteq> set ?q'" by (auto simp: set_push_neighbors)
  have "sorted ?q'" using inv by (intro sorted_push_neighbors) (simp add: loop_inv_def)
  moreover have "frontier g start ?q' (insert node seen)"
    unfolding frontier_def
  proof (intro allI impI)
    fix nodes u n pr
    assume a: "walk g start u nodes \<and> u \<in> insert node seen \<and> edge g u n = Some pr \<and> n \<notin> insert node seen"
    show "\<exists>c pth dirs. (c, n, pth, dirs) \<in> set ?q' \<and> c \<le> path_weight g nodes + weight_of pr"
    proof (cases "u = node")
      case True
      with a have "c \<le> path_weight g nodes" using popped_optimal [OF nn inv unseen] by blast
      moreover from a True have "(n, pr) \<in> set (graph_get g node)"
        unfolding edge_def by (auto dest: map_of_SomeD)
      then have "(c + weight_of pr, n, pth @ [node], dirs @ [direction_of pr]) \<in> set ?q'"
        using a unfolding set_push_neighbors by blast
      ultimately show ?thesis by (intro exI [of _ "c + weight_of pr"] exI conjI) (assumption, simp)
    next
      case False
      with a inv obtain c' p d where m: "(c', n, p, d) \<in> set ((c, node, pth, dirs) # queue)"
        and le: "c' \<le> path_weight g nodes + weight_of pr"
        unfolding loop_inv_def frontier_def by blast
      from a have "n \<noteq> node" by auto
      with m sub have "(c', n, p, d) \<in> set ?q'" by auto
      with le show ?thesis by blast
    qed
  qed
  moreover have "start_pending start ?q' (insert node seen)"
    unfolding start_pending_def
  proof
    assume a: "start \<notin> insert node seen"
    with inv obtain c' p d where m: "(c', start, p, d) \<in> set ((c, node, pth, dirs) # queue)"
      and le: "c' \<le> 0"
      unfolding loop_inv_def start_pending_def by blast
    from a m sub have "(c', start, p, d) \<in> set ?q'" by auto
    with le show "\<exists>c pth dirs. (c, start, pth, dirs) \<in> set ?q' \<and> c \<le> 0" by blast
  qed
  ultimately show ?thesis by (simp add: loop_inv_def)
qed

lemma inv_init: "loop_inv g start [(0, start, [], [])] {}"
  by (simp add: loop_inv_def frontier_def start_pending_def)

lemma loop_optimal:
  "nonneg_weights g \<Longrightarrow> loop_inv g start queue seen \<Longrightarrow>
   dijkstra_loop g end_node queue seen = (Finite c, p, d) \<Longrightarrow>
   walk g start end_node nodes \<Longrightarrow> c \<le> path_weight g nodes"
proof (induction g end_node queue seen rule: dijkstra_loop.induct)
  case (1 g end_node seen)
  then show ?case by simp
next
  case (2 g end_node c' node pth dirs queue seen)
  note nn = "2.prems"(1) and inv = "2.prems"(2) and res = "2.prems"(3) and w = "2.prems"(4)
  show ?case
  proof (cases "node \<in> seen")
    case True
    from res True have "dijkstra_loop g end_node queue seen = (Finite c, p, d)" by simp
    from "2.IH"(2) [OF _ nn inv_skip [OF inv True] this w] True show ?thesis by simp
  next
    case unseen: False
    show ?thesis
    proof (cases "node = end_node")
      case True
      with unseen res have "c = c'" by simp
      with popped_optimal [OF nn inv unseen] w True show ?thesis by simp
    next
      case False
      with res unseen have "dijkstra_loop g end_node
          (push_neighbors (graph_get g node) (insert node seen) c' (pth @ [node]) dirs queue)
          (insert node seen) = (Finite c, p, d)" by simp
      from "2.IH"(1) [OF unseen False nn inv_settle [OF nn inv unseen] this w] show ?thesis .
    qed
  qed
qed

subsection \<open>Properties of the queue entries\<close>

text \<open>
  A property of the initial entry that is kept when an entry is extended by an edge of
  its node holds for the entry that the loop returns, if it returns one.
\<close>

lemma loop_entries:
  assumes ext: "\<And>c node pth dirs n pr.
      P (c, node, pth, dirs) \<Longrightarrow> (n, pr) \<in> set (graph_get g node) \<Longrightarrow>
      P (c + weight_of pr, n, pth @ [node], dirs @ [direction_of pr])"
  shows "\<forall>e \<in> set queue. P e \<Longrightarrow>
    dijkstra_loop g end_node queue seen = (Infinite, [], []) \<or>
    (\<exists>c pth dirs. dijkstra_loop g end_node queue seen = (Finite c, pth @ [end_node], dirs) \<and>
       P (c, end_node, pth, dirs))"
  using ext
proof (induction g end_node queue seen rule: dijkstra_loop.induct)
  case (1 g end_node seen)
  then show ?case by simp
next
  case (2 g end_node c node pth dirs queue seen)
  show ?case
  proof (cases "node \<in> seen")
    case True
    with 2 show ?thesis by simp
  next
    case unseen: False
    show ?thesis
    proof (cases "node = end_node")
      case True
      with unseen "2.prems"(1) show ?thesis by simp
    next
      case False
      let ?q' = "push_neighbors (graph_get g node) (insert node seen) c (pth @ [node]) dirs queue"
      have "\<forall>e \<in> set ?q'. P e"
      proof
        fix e assume "e \<in> set ?q'"
        then consider "e \<in> set queue"
          | n pr where "e = (c + weight_of pr, n, pth @ [node], dirs @ [direction_of pr])"
              "(n, pr) \<in> set (graph_get g node)"
          unfolding set_push_neighbors by blast
        then show "P e"
        proof cases
          case 1
          then show ?thesis using "2.prems"(1) by simp
        next
          case 2
          have "P (c, node, pth, dirs)" using "2.prems"(1) by simp
          from "2.prems"(2) [OF this 2(2)] show ?thesis unfolding 2(1) .
        qed
      qed
      from "2.IH"(1) [OF unseen False this "2.prems"(2)] unseen False show ?thesis by simp
    qed
  qed
qed

lemma entry_instr_extend:
  assumes "entry_instr g (c, node, pth, dirs)" "(n, pr) \<in> set (graph_get g node)"
  shows "entry_instr g (c + weight_of pr, n, pth @ [node], dirs @ [direction_of pr])"
proof -
  from assms(1) have len: "length dirs = length pth"
    and old: "\<And>i. i < length dirs \<Longrightarrow>
      \<exists>pr. ((pth @ [node]) ! Suc i, pr) \<in> set (graph_get g ((pth @ [node]) ! i)) \<and> dirs ! i = direction_of pr"
    by (auto simp: entry_instr_def)
  have "\<exists>pr'. (((pth @ [node]) @ [n]) ! Suc i, pr') \<in> set (graph_get g (((pth @ [node]) @ [n]) ! i)) \<and>
          (dirs @ [direction_of pr]) ! i = direction_of pr'"
    if "i < length (dirs @ [direction_of pr])" for i
  proof (cases "i < length dirs")
    case True
    then have "Suc i < length (pth @ [node])" "i < length (pth @ [node])" using len by simp_all
    then have e1: "((pth @ [node]) @ [n]) ! Suc i = (pth @ [node]) ! Suc i"
      and e2: "((pth @ [node]) @ [n]) ! i = (pth @ [node]) ! i"
      by (simp_all only: nth_append if_True)
    have e3: "(dirs @ [direction_of pr]) ! i = dirs ! i" using True by (simp add: nth_append)
    show ?thesis unfolding e1 e2 e3 by (rule old [OF True])
  next
    case False
    with that have i: "i = length pth" using len by simp
    have "((pth @ [node]) @ [n]) ! Suc i = n" "((pth @ [node]) @ [n]) ! i = node"
      "(dirs @ [direction_of pr]) ! i = direction_of pr"
      using len by (simp_all add: i nth_append)
    with assms(2) show ?thesis by auto
  qed
  with len show ?thesis by (simp add: entry_instr_def)
qed

lemma entry_ok_extend':
  assumes "dict_graph g" "entry_ok g start (c, node, pth, dirs)" "(n, pr) \<in> set (graph_get g node)"
  shows "entry_ok g start (c + weight_of pr, n, pth @ [node], dirs @ [direction_of pr])"
  using entry_ok_extend [OF assms(2) edge_member [OF assms(1) assms(3)]] .

lemma entry_walk_extend:
  assumes "entry_walk g start (c, node, pth, dirs)" "(n, pr) \<in> set (graph_get g node)"
  shows "entry_walk g start (c + weight_of pr, n, pth @ [node], dirs @ [direction_of pr])"
proof -
  from assms(2) have "edge g node n \<noteq> None"
    unfolding edge_def by (metis map_of_eq_None_iff image_eqI fst_conv)
  with assms(1) show ?thesis by (simp add: entry_walk_def walk_snoc)
qed

subsection \<open>The result of the router\<close>

lemma dijkstra_walk_or_none:
  "dijkstra g start end_node = (Infinite, [], []) \<or>
   (\<exists>c pth dirs. dijkstra g start end_node = (Finite c, pth @ [end_node], dirs) \<and>
      walk g start end_node (pth @ [end_node]))"
proof -
  have "\<forall>e \<in> set [(0, start, [], [])]. entry_walk g start e"
    by (simp add: entry_walk_def walk_def)
  from loop_entries [where P = "entry_walk g start" and g = g and end_node = end_node
      and seen = "{}", OF entry_walk_extend this]
  show ?thesis by (simp add: dijkstra_def entry_walk_def)
qed

lemma dijkstra_instr:
  "dijkstra g start end_node = (Infinite, [], []) \<or>
   (\<exists>c pth dirs. dijkstra g start end_node = (Finite c, pth @ [end_node], dirs) \<and>
      entry_instr g (c, end_node, pth, dirs))"
proof -
  have "\<forall>e \<in> set [(0, start, [], [])]. entry_instr g e" by (simp add: entry_instr_def)
  from loop_entries [where P = "entry_instr g" and g = g and end_node = end_node
      and seen = "{}", OF entry_instr_extend this]
  show ?thesis by (simp add: dijkstra_def)
qed

lemma dijkstra_lengths:
  assumes "dijkstra g start end_node = (c, p, d)" and "p \<noteq> []"
  shows "length p = length d + 1"
  using dijkstra_instr [of g start end_node] assms by (auto simp: entry_instr_def)

lemma queue_nodes_Cons:
  "queue_nodes ((c, node, pth, dirs) # queue) = insert node (queue_nodes queue)"
  by (simp add: queue_nodes_def)

lemma queue_nodes_pushed:
  "queue_nodes queue \<union> {n. n \<notin> seen \<and> n \<in> fst ` set items}
     \<subseteq> queue_nodes (push_neighbors items seen c pth dirs queue)"
  by (force simp: queue_nodes_def set_push_neighbors)

lemma edge_in_items: "edge g u n \<noteq> None \<Longrightarrow> n \<in> fst ` set (graph_get g u)"
  unfolding edge_def by (metis map_of_eq_None_iff)

lemma closed_reaches:
  assumes "start \<in> seen"
    and "\<forall>u n. u \<in> seen \<and> edge g u n \<noteq> None \<longrightarrow> n \<in> seen"
  shows "walk g start t nodes \<Longrightarrow> t \<in> seen"
proof (induction nodes arbitrary: t rule: rev_induct)
  case Nil
  then show ?case by (simp add: walk_def)
next
  case (snoc x nodes)
  show ?case
  proof (cases nodes rule: rev_cases)
    case Nil
    with snoc.prems assms(1) show ?thesis by (auto simp: walk_single)
  next
    case (snoc pre u)
    with snoc.prems have w: "walk g start u (pre @ [u])" and e: "edge g u x \<noteq> None" and x: "x = t"
      by (auto simp: walk_snoc)
    from snoc.IH [unfolded snoc, OF w] have "u \<in> seen" .
    with assms(2) e x show ?thesis by blast
  qed
qed

text \<open>If the end node can be reached from the start node, the loop returns a route.\<close>

lemma loop_finds_path:
  "closed_inv g start end_node queue seen \<Longrightarrow> walk g start end_node nodes \<Longrightarrow>
   dijkstra_loop g end_node queue seen \<noteq> (Infinite, [], [])"
proof (induction g end_node queue seen rule: dijkstra_loop.induct)
  case (1 g end_node seen)
  then have "start \<in> seen" and "\<forall>u n. u \<in> seen \<and> edge g u n \<noteq> None \<longrightarrow> n \<in> seen"
    by (simp_all add: closed_inv_def queue_nodes_def)
  from closed_reaches [OF this "1.prems"(2)] "1.prems"(1) show ?case
    by (simp add: closed_inv_def)
next
  case (2 g end_node c node pth dirs queue seen)
  note inv = "2.prems"(1) and w = "2.prems"(2)
  show ?case
  proof (cases "node \<in> seen")
    case True
    with inv have "closed_inv g start end_node queue seen"
      by (auto simp: closed_inv_def queue_nodes_Cons)
    from "2.IH"(2) [OF _ this w] True show ?thesis by simp
  next
    case unseen: False
    show ?thesis
    proof (cases "node = end_node")
      case True
      with unseen show ?thesis by simp
    next
      case False
      let ?q' = "push_neighbors (graph_get g node) (insert node seen) c (pth @ [node]) dirs queue"
      have sub: "queue_nodes queue \<union>
          {n. n \<notin> insert node seen \<and> n \<in> fst ` set (graph_get g node)} \<subseteq> queue_nodes ?q'"
        by (rule queue_nodes_pushed)
      have "closed_inv g start end_node ?q' (insert node seen)"
        unfolding closed_inv_def
      proof (intro conjI allI impI)
        show "end_node \<notin> insert node seen" using inv False by (simp add: closed_inv_def)
        show "start \<in> insert node seen \<or> start \<in> queue_nodes ?q'"
          using inv sub by (auto simp: closed_inv_def queue_nodes_Cons)
        fix u n assume a: "u \<in> insert node seen \<and> edge g u n \<noteq> None"
        show "n \<in> insert node seen \<or> n \<in> queue_nodes ?q'"
        proof (cases "u = node")
          case True
          with a have "n \<in> fst ` set (graph_get g node)" by (simp add: edge_in_items)
          with sub show ?thesis by blast
        next
          case False
          with a inv have "n \<in> seen \<or> n \<in> queue_nodes ((c, node, pth, dirs) # queue)"
            unfolding closed_inv_def by blast
          with sub show ?thesis by (auto simp: queue_nodes_Cons)
        qed
      qed
      from "2.IH"(1) [OF unseen False this w] unseen False show ?thesis by simp
    qed
  qed
qed

lemma dijkstra_finds_path:
  assumes "walk g start end_node nodes"
  shows "\<exists>c p d. dijkstra g start end_node = (Finite c, p, d)"
proof -
  have "closed_inv g start end_node [(0, start, [], [])] {}"
    by (simp add: closed_inv_def queue_nodes_def)
  from loop_finds_path [OF this assms] dijkstra_walk_or_none [of g start end_node]
  show ?thesis by (auto simp: dijkstra_def)
qed

subsection \<open>Claims on the router\<close>

lemma dijkstra_two_edge:
  "dijkstra two_edge_graph ''A'' ''C'' =
     (Finite 10, [''A'', ''B'', ''C''], [''turn left'', ''go straight''])"
  by (simp add: dijkstra_def two_edge_graph_def graph_get_def heappush_def weight_of_def
      direction_of_def)

text \<open>
  Claim C1. For every graph with non-negative edge weights, when
  \<^verbatim>\<open>dijkstra(graph, start, end)\<close> returns a finite cost, the returned node sequence is
  a path from start to end in the graph, the returned cost is the sum of the weights of
  the edges it traverses, and no path from start to end has a smaller weight. On the
  two-edge graph of the scenario, routing A to C returns cost 10, the path A, B, C and
  the instructions "turn left", "go straight". (The statement does not need start and
  end to be keys of the graph. \<open>dict_graph\<close> holds of every Python dict, and of the
  graphs that the program builds by \<open>build_graph_dict\<close>.)
\<close>

theorem dijkstra_shortest_route:
  "(dict_graph g \<and> nonneg_weights g \<and> dijkstra g start end_node = (Finite c, p, d) \<longrightarrow>
      walk g start end_node p \<and> path_weight g p = c \<and>
      (\<forall>nodes. walk g start end_node nodes \<longrightarrow> c \<le> path_weight g nodes)) \<and>
   dijkstra two_edge_graph ''A'' ''C'' =
     (Finite 10, [''A'', ''B'', ''C''], [''turn left'', ''go straight''])"
proof (intro conjI impI allI)
  assume a: "dict_graph g \<and> nonneg_weights g \<and> dijkstra g start end_node = (Finite c, p, d)"
  then have dg: "dict_graph g" and nn: "nonneg_weights g"
    and res: "dijkstra_loop g end_node [(0, start, [], [])] {} = (Finite c, p, d)"
    by (simp_all add: dijkstra_def)
  have "\<forall>e \<in> set [(0, start, [], [])]. entry_ok g start e"
    by (simp add: entry_ok_def walk_def)
  from loop_entries [of "entry_ok g start" g, OF entry_ok_extend' [OF dg] this, of end_node "{}"] res
  obtain pth where "p = pth @ [end_node]" "entry_ok g start (c, end_node, pth, d)" by auto
  then show "walk g start end_node p" "path_weight g p = c" by (simp_all add: entry_ok_def)
  fix nodes assume "walk g start end_node nodes"
  from loop_optimal [OF nn inv_init res this] show "c \<le> path_weight g nodes" .
next
  show "dijkstra two_edge_graph ''A'' ''C'' =
     (Finite 10, [''A'', ''B'', ''C''], [''turn left'', ''go straight''])"
    by (rule dijkstra_two_edge)
qed

lemma dijkstra_detour:
  "dijkstra detour_graph ''A'' ''C'' =
     (Finite 10, [''A'', ''B'', ''C''], [''turn left'', ''go straight''])"
  by (simp add: dijkstra_def detour_graph_def graph_get_def heappush_def weight_of_def
      direction_of_def)

theorem dijkstra_shortest_route_witness:
  "dict_graph detour_graph \<and> nonneg_weights detour_graph \<and>
   dijkstra detour_graph ''A'' ''C'' =
     (Finite 10, [''A'', ''B'', ''C''], [''turn left'', ''go straight'']) \<and>
   walk detour_graph ''A'' ''C'' [''A'', ''B'', ''C''] \<and>
   path_weight detour_graph [''A'', ''B'', ''C''] = 10 \<and>
   walk detour_graph ''A'' ''C'' [''A'', ''D'', ''C''] \<and>
   10 \<le> path_weight detour_graph [''A'', ''D'', ''C''] \<and>
   walk detour_graph ''A'' ''C'' [''A'', ''C''] \<and>
   10 \<le> path_weight detour_graph [''A'', ''C'']"
proof -
  have h: "dict_graph detour_graph \<and> nonneg_weights detour_graph \<and>
    dijkstra detour_graph ''A'' ''C'' =
      (Finite 10, [''A'', ''B'', ''C''], [''turn left'', ''go straight''])"
    by (simp add: dijkstra_detour)
      (simp add: dict_graph_def nonneg_weights_def detour_graph_def weight_of_def)
  have w1: "walk detour_graph ''A'' ''C'' [''A'', ''D'', ''C'']"
    and w2: "walk detour_graph ''A'' ''C'' [''A'', ''C'']"
    by (simp_all add: walk_def edge_def graph_get_def detour_graph_def)
  from dijkstra_shortest_route [of detour_graph "''A''" "''C''" 10 "[''A'', ''B'', ''C'']"
      "[''turn left'', ''go straight'']"] h w1 w2
  show ?thesis by blast
qed

text \<open>
  Claim C6. For every graph and every node \<open>s\<close> (a key of the graph or not),
  \<^verbatim>\<open>dijkstra(graph, s, s)\<close> returns cost 0, the single-node sequence \<open>[s]\<close> and
  an empty instruction sequence.
\<close>

theorem dijkstra_same_node: "dijkstra g s s = (Finite 0, [s], [])"
  by (simp add: dijkstra_def)

text \<open>
  Claim C7. For every route of finite cost returned by \<^verbatim>\<open>dijkstra\<close>, the node
  sequence is one longer than the instruction sequence, and instruction \<open>i\<close> is the
  instruction of an edge of the graph from node \<open>i\<close> to node \<open>i + 1\<close> of the route.
\<close>

theorem route_instructions:
  assumes "dijkstra g start end_node = (Finite c, p, d)"
  shows "length p = length d + 1 \<and>
    (\<forall>i < length d. \<exists>pr. (p ! Suc i, pr) \<in> set (graph_get g (p ! i)) \<and> d ! i = direction_of pr)"
proof -
  from dijkstra_instr [of g start end_node] assms
  obtain pth where "p = pth @ [end_node]" "entry_instr g (c, end_node, pth, d)"
    by auto
  then show ?thesis by (simp add: entry_instr_def)
qed

theorem route_instructions_witness:
  "dijkstra detour_graph ''A'' ''C'' =
     (Finite 10, [''A'', ''B'', ''C''], [''turn left'', ''go straight'']) \<and>
   length [''A'', ''B'', ''C''] = length [''turn left'', ''go straight''] + 1 \<and>
   (\<exists>pr. (''B'', pr) \<in> set (graph_get detour_graph ''A'') \<and> ''turn left'' = direction_of pr) \<and>
   (\<exists>pr. (''C'', pr) \<in> set (graph_get detour_graph ''B'') \<and> ''go straight'' = direction_of pr)"
proof -
  from route_instructions [OF dijkstra_detour]
  have "\<forall>i < 2. \<exists>pr. ([''A'', ''B'', ''C''] ! Suc i, pr) \<in> set (graph_get detour_graph ([''A'', ''B'', ''C''] ! i)) \<and>
      [''turn left'', ''go straight''] ! i = direction_of pr"
    by simp
  from this [rule_format, of 0] this [rule_format, of 1] dijkstra_detour show ?thesis by simp
qed

section \<open>Properties of the intent classifier\<close>

lemma scan_step_eq:
  "scan_step s x (m, b) = (if s (snd x) > m then (s (snd x), fst x) else (m, b))"
  by (cases x) simp

lemma scan_phrases_fold:
  "scan_phrases sim_to intent phrases best =
   fold (scan_step sim_to) (map (\<lambda>phrase. (intent, phrase)) phrases) best"
proof (induction phrases arbitrary: best)
  case Nil
  show ?case by simp
next
  case (Cons phrase phrases)
  obtain m b where best: "best = (m, b)" by (cases best)
  show ?case unfolding best by (simp add: Cons.IH)
qed

lemma scan_intents_fold:
  "scan_intents sim_to kb best = fold (scan_step sim_to) (phrase_pairs kb) best"
proof (induction kb arbitrary: best)
  case Nil
  show ?case by (simp add: phrase_pairs_def)
next
  case (Cons item kb)
  obtain intent phrases where item: "item = (intent, phrases)" by (cases item)
  have "phrase_pairs (item # kb) = map (\<lambda>phrase. (intent, phrase)) phrases @ phrase_pairs kb"
    by (simp add: phrase_pairs_def item)
  then show ?case by (simp add: item Cons.IH scan_phrases_fold)
qed

lemma fold_scan_bound:
  "fold (scan_step s) pairs (m, b) = (m', b') \<Longrightarrow>
   m \<le> m' \<and> (\<forall>p \<in> set pairs. s (snd p) \<le> m') \<and> (m' = m \<or> (\<exists>p \<in> set pairs. m' = s (snd p)))"
proof (induction pairs arbitrary: m b)
  case Nil
  then show ?case by simp
next
  case (Cons x pairs)
  show ?case
  proof (cases "s (snd x) > m")
    case True
    with Cons.prems have "fold (scan_step s) pairs (s (snd x), fst x) = (m', b')"
      by (simp add: scan_step_eq)
    from Cons.IH [OF this] True show ?thesis by auto
  next
    case False
    with Cons.prems have "fold (scan_step s) pairs (m, b) = (m', b')"
      by (simp add: scan_step_eq)
    from Cons.IH [OF this] False show ?thesis by auto
  qed
qed

lemma fold_scan_unchanged:
  "\<forall>p \<in> set pairs. s (snd p) \<le> m \<Longrightarrow> fold (scan_step s) pairs (m, b) = (m, b)"
  by (induction pairs) (auto simp: scan_step_eq)

lemma fold_scan_first_max:
  "k < length pairs \<Longrightarrow> m < s (snd (pairs ! k)) \<Longrightarrow>
   \<forall>j < length pairs. s (snd (pairs ! j)) \<le> s (snd (pairs ! k)) \<Longrightarrow>
   \<forall>j < k. s (snd (pairs ! j)) < s (snd (pairs ! k)) \<Longrightarrow>
   fold (scan_step s) pairs (m, b) = (s (snd (pairs ! k)), fst (pairs ! k))"
proof (induction pairs arbitrary: k m b)
  case Nil
  then show ?case by simp
next
  case (Cons x pairs)
  show ?case
  proof (cases k)
    case 0
    with Cons.prems have gt: "m < s (snd x)" and "\<forall>j < length (x # pairs). s (snd ((x # pairs) ! j)) \<le> s (snd x)"
      by simp_all
    then have "\<forall>p \<in> set pairs. s (snd p) \<le> s (snd x)"
      by (metis in_set_conv_nth length_Cons not_less_eq nth_Cons_Suc not_less)
    from fold_scan_unchanged [OF this] gt 0 show ?thesis by (simp add: scan_step_eq)
  next
    case (Suc k')
    let ?t = "s (snd (pairs ! k'))"
    from Cons.prems Suc have k': "k' < length pairs" and gt: "m < ?t" by simp_all
    from Cons.prems(4) Suc have x: "s (snd x) < ?t" by auto
    have mx: "\<forall>j < length pairs. s (snd (pairs ! j)) \<le> ?t"
      using Cons.prems(3) Suc by auto
    have first: "\<forall>j < k'. s (snd (pairs ! j)) < ?t"
      using Cons.prems(4) Suc by auto
    obtain m1 b1 where step: "scan_step s x (m, b) = (m1, b1)" by (cases "scan_step s x (m, b)")
    then have "m1 < ?t" using gt x by (auto simp: scan_step_eq split: if_splits)
    from Cons.IH [OF k' this mx first] step Suc show ?thesis by simp
  qed
qed

lemma phrase_pairs_kb:
  "phrase_pairs knowledge_base =
    [(''greeting'', ''hello''), (''greeting'', ''hi''), (''greeting'', ''hey''),
     (''greeting'', ''greetings''), (''greeting'', ''good morning''),
     (''greeting'', ''good afternoon''),
     (''goodbye'', ''bye''), (''goodbye'', ''goodbye''), (''goodbye'', ''see you''),
     (''goodbye'', ''take care''),
     (''thanks'', ''thanks''), (''thanks'', ''thank you''), (''thanks'', ''appreciate it''),
     (''about'', ''who are you''), (''about'', ''what are you''), (''about'', ''what can you do''),
     (''navigate'', ''navigate''), (''navigate'', ''find''), (''navigate'', ''go to''),
     (''navigate'', ''reach''), (''navigate'', ''how to get to''), (''navigate'', ''directions''),
     (''teacher_info'', ''teacher''), (''teacher_info'', ''faculty''),
     (''teacher_info'', ''professor''), (''teacher_info'', ''details of''),
     (''teacher_info'', ''information on''), (''teacher_info'', ''who is'')]"
  by (simp add: phrase_pairs_def knowledge_base_def)

lemma sim_hello: "phrase_in_text (ascii_lower ''Hi, who is the professor?'') ''hello'' = 0"
  by code_simp

lemma sim_hi: "phrase_in_text (ascii_lower ''Hi, who is the professor?'') ''hi'' = 1 / 2"
  by code_simp

lemma sim_who_is: "phrase_in_text (ascii_lower ''Hi, who is the professor?'') ''who is'' = 1 / 2"
  by code_simp

text \<open>
  Claim C8. For every input text (and every similarity and every
  \<^verbatim>\<open>str.lower\<close>): if the similarity of the lower-cased text to every
  example phrase of every intent is at most 0.3, \<^verbatim>\<open>get_intent\<close> returns
  "unknown"; if the greatest similarity exceeds 0.3, it returns the intent of the first
  phrase, in the order of the iteration over intents and then phrases, that attains
  the greatest similarity.
\<close>

theorem get_intent_decision:
  "((\<forall>(intent, phrase) \<in> set (phrase_pairs knowledge_base). sim (lower text) phrase \<le> 3 / 10) \<longrightarrow>
      get_intent lower sim text = ''unknown'') \<and>
   (\<forall>k < length (phrase_pairs knowledge_base).
      3 / 10 < sim (lower text) (snd (phrase_pairs knowledge_base ! k)) \<and>
      (\<forall>j < length (phrase_pairs knowledge_base).
         sim (lower text) (snd (phrase_pairs knowledge_base ! j)) \<le>
         sim (lower text) (snd (phrase_pairs knowledge_base ! k))) \<and>
      (\<forall>j < k. sim (lower text) (snd (phrase_pairs knowledge_base ! j)) <
         sim (lower text) (snd (phrase_pairs knowledge_base ! k))) \<longrightarrow>
      get_intent lower sim text = fst (phrase_pairs knowledge_base ! k))"
proof (intro conjI allI impI)
  let ?s = "sim (lower text)" and ?pairs = "phrase_pairs knowledge_base"
  assume low: "\<forall>(intent, phrase) \<in> set ?pairs. ?s phrase \<le> 3 / 10"
  obtain m' b' where r: "fold (scan_step ?s) ?pairs (0, ''unknown'') = (m', b')"
    by (cases "fold (scan_step ?s) ?pairs (0, ''unknown'')")
  from fold_scan_bound [OF r] low have "m' \<le> 3 / 10" by auto
  with r show "get_intent lower sim text = ''unknown''"
    by (simp add: get_intent_def scan_intents_fold)
next
  let ?s = "sim (lower text)" and ?pairs = "phrase_pairs knowledge_base"
  fix k
  assume k: "k < length ?pairs"
    and h: "3 / 10 < ?s (snd (?pairs ! k)) \<and>
      (\<forall>j < length ?pairs. ?s (snd (?pairs ! j)) \<le> ?s (snd (?pairs ! k))) \<and>
      (\<forall>j < k. ?s (snd (?pairs ! j)) < ?s (snd (?pairs ! k)))"
  then have "0 < ?s (snd (?pairs ! k))" by simp
  from fold_scan_first_max [where s = ?s and b = "''unknown''", OF k this] h
  have "fold (scan_step ?s) ?pairs (0, ''unknown'') = (?s (snd (?pairs ! k)), fst (?pairs ! k))"
    by blast
  with h show "get_intent lower sim text = fst (?pairs ! k)"
    by (simp add: get_intent_def scan_intents_fold)
qed

theorem get_intent_decision_witness:
  "phrase_in_text (ascii_lower ''Hi, who is the professor?'') ''hi'' = 1 / 2 \<and>
   phrase_in_text (ascii_lower ''Hi, who is the professor?'') ''who is'' = 1 / 2 \<and>
   get_intent ascii_lower phrase_in_text ''Hi, who is the professor?'' = ''greeting'' \<and>
   get_intent ascii_lower (\<lambda>a b. 3 / 10) ''Hi, who is the professor?'' = ''unknown''"
proof -
  let ?t = "''Hi, who is the professor?''"
  have le: "phrase_in_text a b \<le> 1 / 2" for a b by (simp add: phrase_in_text_def)
  have k: "phrase_pairs knowledge_base ! 1 = (''greeting'', ''hi'')"
    "phrase_pairs knowledge_base ! 0 = (''greeting'', ''hello'')"
    "1 < length (phrase_pairs knowledge_base)"
    by (simp_all add: phrase_pairs_kb)
  let ?pp = "phrase_pairs knowledge_base" and ?s = "phrase_in_text (ascii_lower ?t)"
  have a: "3 / 10 < ?s (snd (?pp ! 1))" unfolding k(1) by (simp add: sim_hi)
  have b: "\<forall>j < length ?pp. ?s (snd (?pp ! j)) \<le> ?s (snd (?pp ! 1))"
    using le unfolding k(1) by (simp add: sim_hi)
  have c: "\<forall>j < 1. ?s (snd (?pp ! j)) < ?s (snd (?pp ! 1))"
    unfolding k(1) by (simp add: sim_hi sim_hello k(2))
  from get_intent_decision [of phrase_in_text ascii_lower ?t]
  have "\<forall>k < length ?pp.
      3 / 10 < ?s (snd (?pp ! k)) \<and>
      (\<forall>j < length ?pp. ?s (snd (?pp ! j)) \<le> ?s (snd (?pp ! k))) \<and>
      (\<forall>j < k. ?s (snd (?pp ! j)) < ?s (snd (?pp ! k))) \<longrightarrow>
      get_intent ascii_lower phrase_in_text ?t = fst (?pp ! k)"
    by (rule conjunct2)
  from this [rule_format, OF k(3) conjI [OF a conjI [OF b c]]]
  have "get_intent ascii_lower phrase_in_text ?t = fst (phrase_pairs knowledge_base ! 1)" .
  moreover have "get_intent ascii_lower (\<lambda>a b. 3 / 10) ?t = ''unknown''"
    using get_intent_decision [of "\<lambda>a b. 3 / 10" ascii_lower ?t] by simp
  ultimately show ?thesis using sim_hi sim_who_is k by simp
qed

section \<open>Properties of the dialog controller\<close>

subsection \<open>Evaluations on the example data\<close>

lemma campus_graph:
  "build_graph_from_neo4j campus =
     [(''GATE'', [(''LIBRARY'', \<lparr>weight = Some 15, direction = Some ''take the path on your right''\<rparr>)]),
      (''LIBRARY'', [(''AB1_303'', \<lparr>weight = Some 10, direction = Some ''go straight down the corridor''\<rparr>),
                     (''GATE'', \<lparr>weight = Some 15, direction = Some ''go back towards GATE''\<rparr>)]),
      (''AB1_303'', []), (''ANNEX'', [])]"
  by code_simp

lemma get_intent_navigate:
  "get_intent (str_lower campus) (cosine campus) ''navigate from gate to gate'' = ''navigate''"
  by code_simp

lemma strip_navigate:
  "str_strip campus ''navigate from gate to gate'' = ''navigate from gate to gate''"
  by code_simp

lemma start_end_gate:
  "start_end_nodes campus (nlp campus ''navigate from gate to gate'') =
     (Some ''GATE'', Some ''GATE'')"
  by code_simp

lemma affirms_reached: "affirms campus (str_strip campus ''Yes, reached'')"
  by code_simp

lemma not_affirms_wait: "\<not> affirms campus (str_strip campus ''wait a moment'')"
  by code_simp

lemma py_int_1: "py_int campus (str_strip campus ''1'') = Some 1"
  by code_simp

lemma py_int_4: "py_int campus (str_strip campus ''4'') = Some 4"
  by code_simp

lemma py_int_first: "py_int campus (str_strip campus ''the first'') = None"
  by code_simp

lemma strip_hello: "str_strip campus ''hello'' = ''hello''"
  by code_simp

lemma yes_please: "contains (str_lower campus (str_strip campus ''Yes please'')) ''yes''"
  by code_simp

lemma yes_yes: "contains (str_lower campus (str_strip campus ''yes'')) ''yes''"
  by code_simp

lemma cabin_tokens:
  "tokens (nlp campus (''go from my current location to '' @ ''AB1_303'')) =
     [''go'', ''from'', ''my'', ''current'', ''location'', ''to''] @ [''AB1_303'']"
  by code_simp

lemma campus_no_my: "map_of (build_graph_from_neo4j campus) ''MY'' = None"
  by (simp add: campus_graph)

lemma upper_ab1: "str_upper campus ''AB1_303'' = ''AB1_303''"
  by code_simp

lemma upper_my: "str_upper campus ''my'' = ''MY''"
  by code_simp

lemma empty_cabin_nodes:
  "start_end_nodes campus (nlp campus ''go from my current location to '') =
     (Some ''MY'', None)"
  by code_simp

subsection \<open>The graph built from the database\<close>

text \<open>
  The graph that \<^verbatim>\<open>build_graph_from_neo4j\<close> returns is a dict of dicts, and its
  weights are non-negative when those of the relationships are: the routing properties
  apply to every graph that the navigation handler passes to \<^verbatim>\<open>dijkstra\<close>.
\<close>

lemma set_update_cases:
  "x \<in> set (AList.update k v al) \<Longrightarrow> x = (k, v) \<or> x \<in> set al"
  by (induction al) (auto split: if_splits)

lemma props_ok_update:
  assumes "props_ok P g" "distinct (map fst a)" "\<forall>(n, pr) \<in> set a. P pr"
  shows "props_ok P (AList.update k a g)"
  unfolding props_ok_def
proof
  fix x assume "x \<in> set (AList.update k a g)"
  then have "x = (k, a) \<or> x \<in> set g" by (rule set_update_cases)
  with assms show "case x of (k, a) \<Rightarrow> distinct (map fst a) \<and> (\<forall>(n, pr) \<in> set a. P pr)"
    by (auto simp: props_ok_def)
qed

lemma props_ok_graph_get:
  assumes "props_ok P g"
  shows "distinct (map fst (graph_get g k)) \<and> (\<forall>(n, pr) \<in> set (graph_get g k). P pr)"
proof (cases "map_of g k")
  case None
  then show ?thesis by (simp add: graph_get_def)
next
  case (Some a)
  then have "(k, a) \<in> set g" by (rule map_of_SomeD)
  with assms Some show ?thesis by (auto simp: props_ok_def graph_get_def)
qed

lemma props_ok_add_node: "props_ok P g \<Longrightarrow> props_ok P (add_node name g)"
  unfolding add_node_def by (rule props_ok_update) simp_all

lemma props_ok_add_rel:
  assumes "props_ok P g" "P \<lparr>weight = Some w, direction = Some d\<rparr>"
  shows "props_ok P (add_rel (source, target, w, d) g)"
proof -
  let ?g1 = "if map_of g source = None then AList.update source [] g else g"
  have g1: "props_ok P ?g1" using assms(1) by (simp add: props_ok_update)
  let ?a = "AList.update target \<lparr>weight = Some w, direction = Some d\<rparr> (graph_get ?g1 source)"
  from props_ok_graph_get [OF g1, of source]
  have "distinct (map fst ?a)" and "\<forall>(n, pr) \<in> set ?a. P pr"
    using assms(2) by (auto simp: distinct_update dest!: set_update_cases)
  from props_ok_update [OF g1 this] show ?thesis by (simp add: add_rel_def Let_def)
qed

lemma props_ok_build_graph:
  assumes "\<forall>(source, target, w, d) \<in> set (connected_to env). P \<lparr>weight = Some w, direction = Some d\<rparr>"
  shows "props_ok P (build_graph_from_neo4j env)"
proof -
  have nodes: "props_ok P (fold add_node names g)" if "props_ok P g" for names g
    using that by (induction names arbitrary: g) (simp_all add: props_ok_add_node)
  have rels: "props_ok P (fold add_rel rels g)"
    if "props_ok P g" "\<forall>(source, target, w, d) \<in> set rels. P \<lparr>weight = Some w, direction = Some d\<rparr>"
    for rels g
    using that
  proof (induction rels arbitrary: g)
    case Nil
    then show ?case by simp
  next
    case (Cons rel rels)
    obtain source target w d where rel: "rel = (source, target, w, d)" by (cases rel)
    with Cons.prems have "props_ok P (add_rel rel g)" by (simp add: props_ok_add_rel)
    with Cons show ?case by simp
  qed
  have "props_ok P []" by (simp add: props_ok_def)
  from rels [OF nodes [OF this] assms] show ?thesis by (simp add: build_graph_from_neo4j_def)
qed

lemma build_graph_dict: "dict_graph (build_graph_from_neo4j env)"
  using props_ok_build_graph [of env "\<lambda>pr. True"]
  by (auto simp: props_ok_def dict_graph_def list_all_iff)

lemma build_graph_nonneg:
  assumes "\<forall>(source, target, w, d) \<in> set (connected_to env). 0 \<le> w"
  shows "nonneg_weights (build_graph_from_neo4j env)"
  using props_ok_build_graph [of env "\<lambda>pr. 0 \<le> weight_of pr"] assms
  by (auto simp: props_ok_def nonneg_weights_def list_all_iff weight_of_def)

subsection \<open>The session invariant is maintained\<close>

lemma sessions_ok_upd:
  "sessions_ok user_sessions \<Longrightarrow> session_ok s \<Longrightarrow> sessions_ok (user_sessions(uid \<mapsto> s))"
  by (simp add: sessions_ok_def)

lemma handle_navigation_sessions_ok:
  assumes ok: "sessions_ok user_sessions"
    and res: "handle_navigation env user_sessions doc uid = (r, sessions')"
  shows "sessions_ok sessions'"
proof -
  obtain so eo where se: "start_end_nodes env doc = (so, eo)" by (cases "start_end_nodes env doc")
  let ?g = "build_graph_from_neo4j env"
  obtain c p d where dj: "dijkstra ?g (the so) (the eo) = (c, p, d)"
    by (cases "dijkstra ?g (the so) (the eo)")
  show ?thesis
  proof (cases "truthy so \<and> truthy eo \<and> map_of ?g (the so) \<noteq> None \<and> map_of ?g (the eo) \<noteq> None
      \<and> p \<noteq> [] \<and> user_sessions uid \<noteq> None")
    case False
    with res se dj have "sessions' = user_sessions"
      by (auto simp: handle_navigation_def Let_def split: if_splits option.splits)
    with ok show ?thesis by simp
  next
    case True
    then obtain s where s: "user_sessions uid = Some s" by auto
    let ?s' = "s\<lparr>state := navigation_confirm, path := Some p, directions := Some d,
      current_step := Some 0\<rparr>"
    from True res se dj s have "sessions' = user_sessions(uid \<mapsto> ?s')"
      by (auto simp: handle_navigation_def Let_def split: if_splits)
    moreover from dijkstra_lengths [OF dj] True have "session_ok ?s'"
      by (simp add: session_ok_def route_payload_def)
    ultimately show ?thesis using ok by (simp add: sessions_ok_upd)
  qed
qed

lemma intent_logic_sessions_ok:
  assumes ok: "sessions_ok user_sessions"
    and res: "intent_logic env user_sessions uid message s = (r, sessions', tr)"
  shows "sessions_ok sessions'"
proof -
  let ?doc = "nlp env message"
  obtain r0 ss0 where hn: "handle_navigation env user_sessions ?doc uid = (r0, ss0)"
    by (cases "handle_navigation env user_sessions ?doc uid")
  have nav: "sessions_ok ss0" using handle_navigation_sessions_ok [OF ok hn] .
  have a: "sessions_ok (user_sessions(uid \<mapsto> s\<lparr>state := navigate_to_teacher_confirm,
      teacher_cabin := Some x\<rparr>))" for x
    using ok by (intro sessions_ok_upd) (simp_all add: session_ok_def)
  have b: "sessions_ok (user_sessions(uid \<mapsto> s\<lparr>state := teacher_selection, teachers := Some x\<rparr>))" for x
    using ok by (intro sessions_ok_upd) (simp_all add: session_ok_def)
  from res hn have "sessions' = user_sessions \<or> sessions' = ss0 \<or>
    (\<exists>x. sessions' = user_sessions(uid \<mapsto> s\<lparr>state := navigate_to_teacher_confirm,
      teacher_cabin := Some x\<rparr>)) \<or>
    (\<exists>x. sessions' = user_sessions(uid \<mapsto> s\<lparr>state := teacher_selection, teachers := Some x\<rparr>))"
    by (auto simp: intent_logic_def Let_def split: if_splits list.splits)
  with ok nav a b show ?thesis by auto
qed

lemma chat_sessions_ok:
  assumes ok: "sessions_ok user_sessions"
    and res: "chat env user_sessions user_id_field message_field = (r, sessions', tr)"
  shows "sessions_ok sessions'"
proof -
  define uid where "uid = (case user_id_field of None \<Rightarrow> ''default_user'' | Some u \<Rightarrow> u)"
  define message where
    "message = str_strip env (case message_field of None \<Rightarrow> [] | Some m \<Rightarrow> m)"
  define s where "s = (case user_sessions uid of None \<Rightarrow> new_session | Some s \<Rightarrow> s)"
  define ss where "ss = (case user_sessions uid of
      None \<Rightarrow> user_sessions(uid \<mapsto> new_session) | Some s \<Rightarrow> user_sessions)"
  have s_ok: "session_ok s"
    using ok by (auto simp: s_def sessions_ok_def session_ok_def new_session_def split: option.splits)
  have ss_ok: "sessions_ok ss"
    using ok by (auto simp: ss_def sessions_ok_def session_ok_def new_session_def split: option.splits)
  have idle_ok: "sessions_ok (ss(uid \<mapsto> s\<lparr>state := idle\<rparr>))"
    using ss_ok by (intro sessions_ok_upd) (simp_all add: session_ok_def)
  note unf = chat_def Let_def uid_def [symmetric] message_def [symmetric] s_def [symmetric]
    ss_def [symmetric]
  show ?thesis
  proof (cases "state s")
    case idle
    with res have "intent_logic env ss uid message s = (r, sessions', tr)"
      unfolding unf by simp
    from intent_logic_sessions_ok [OF ss_ok this] show ?thesis .
  next
    case navigation_confirm
    with s_ok obtain p d k where pl: "path s = Some p" "directions s = Some d"
      "current_step s = Some k" "length p = length d + 1" "k < length p"
      by (auto simp: session_ok_def route_payload_def split: option.splits)
    have "sessions_ok (ss(uid \<mapsto> s\<lparr>current_step := Some (k + 1)\<rparr>))" if "k + 1 < length p"
      using ss_ok that pl navigation_confirm
      by (intro sessions_ok_upd) (simp_all add: session_ok_def route_payload_def)
    moreover from res navigation_confirm pl
    have "sessions' = ss \<or> sessions' = ss(uid \<mapsto> s\<lparr>state := idle\<rparr>) \<or>
      (k + 1 < length p \<and> sessions' = ss(uid \<mapsto> s\<lparr>current_step := Some (k + 1)\<rparr>))"
      unfolding unf by (auto split: if_splits)
    ultimately show ?thesis using ss_ok idle_ok by auto
  next
    case teacher_selection
    have "sessions_ok (ss(uid \<mapsto> s\<lparr>state := navigate_to_teacher_confirm,
        teacher_cabin := Some x\<rparr>))" for x
      using ss_ok by (intro sessions_ok_upd) (simp_all add: session_ok_def)
    moreover from res teacher_selection
    have "sessions' = ss \<or> (\<exists>x. sessions' = ss(uid \<mapsto> s\<lparr>state := navigate_to_teacher_confirm,
        teacher_cabin := Some x\<rparr>))"
      unfolding unf by (auto split: if_splits option.splits)
    ultimately show ?thesis using ss_ok by auto
  next
    case navigate_to_teacher_confirm
    with s_ok obtain c where c: "teacher_cabin s = Some c" by (auto simp: session_ok_def)
    let ?doc = "nlp env (''go from my current location to '' @ c)"
    obtain r0 ss0 where hn: "handle_navigation env ss ?doc uid = (r0, ss0)"
      by (cases "handle_navigation env ss ?doc uid")
    from res navigate_to_teacher_confirm c hn
    have "sessions' = ss0 \<or> sessions' = ss(uid \<mapsto> s\<lparr>state := idle\<rparr>)"
      unfolding unf by (auto split: if_splits)
    with handle_navigation_sessions_ok [OF ss_ok hn] idle_ok show ?thesis by auto
  qed
qed

subsection \<open>Navigation start\<close>

text \<open>A navigation request from a node of the graph to itself leaves the handler by the
  \<^verbatim>\<open>IndexError\<close> of \<^verbatim>\<open>directions[0]\<close>, after the session was put into
  \<^verbatim>\<open>navigation_confirm\<close>.\<close>

lemma handle_navigation_same_node:
  assumes "start_end_nodes env doc = (Some a, Some a)" and "a \<noteq> []"
    and "map_of (build_graph_from_neo4j env) a \<noteq> None" and "user_sessions uid = Some s"
  shows "handle_navigation env user_sessions doc uid =
    (Inl IndexError,
     user_sessions(uid \<mapsto> s\<lparr>state := navigation_confirm, path := Some [a],
       directions := Some [], current_step := Some 0\<rparr>))"
  using assms by (auto simp: handle_navigation_def truthy_def dijkstra_def Let_def)

lemma build_graph_cosine:
  "build_graph_from_neo4j (env\<lparr>cosine := f\<rparr>) = build_graph_from_neo4j env"
  by (simp add: build_graph_from_neo4j_def)

lemma start_end_nodes_cosine:
  "start_end_nodes (env\<lparr>cosine := f\<rparr>) doc = start_end_nodes env doc"
proof -
  have "str_upper (env\<lparr>cosine := f\<rparr>) = str_upper env" by simp
  then show ?thesis unfolding start_end_nodes_def by (simp only:)
qed

lemma affirms_cosine: "affirms (env\<lparr>cosine := f\<rparr>) message = affirms env message"
  by (simp add: affirms_def)

lemma handle_navigation_cosine:
  "handle_navigation (env\<lparr>cosine := f\<rparr>) user_sessions doc uid = handle_navigation env user_sessions doc uid"
  unfolding handle_navigation_def build_graph_cosine start_end_nodes_cosine ..

subsection \<open>The exceptions that leave the handlers\<close>

lemma dijkstra_single_node:
  assumes "dijkstra g start end_node = (c, p, d)" and "p \<noteq> []" and "d = [] \<or> length p < 2"
  shows "start = end_node"
proof -
  from dijkstra_lengths [OF assms(1,2)] assms(3) have "length p = 1" by auto
  with dijkstra_walk_or_none [of g start end_node] assms(1,2)
  have "walk g start end_node [end_node]" by auto
  then show ?thesis by (simp add: walk_def)
qed

text \<open>The only exception that leaves the navigation handler of a known user is the
  \<^verbatim>\<open>IndexError\<close> of a request from a node of the graph to itself.\<close>

lemma handle_navigation_raises:
  assumes "user_sessions uid \<noteq> None"
    and "handle_navigation env user_sessions doc uid = (Inl e, sessions')"
  shows "e = IndexError \<and>
    (\<exists>a. start_end_nodes env doc = (Some a, Some a) \<and> map_of (build_graph_from_neo4j env) a \<noteq> None)"
proof -
  obtain so eo where se: "start_end_nodes env doc = (so, eo)" by (cases "start_end_nodes env doc")
  let ?g = "build_graph_from_neo4j env"
  obtain c p d where dj: "dijkstra ?g (the so) (the eo) = (c, p, d)"
    by (cases "dijkstra ?g (the so) (the eo)")
  from assms se dj have t: "truthy so" "truthy eo" "map_of ?g (the so) \<noteq> None" "p \<noteq> []"
    and bad: "d = [] \<or> length p < 2" and e: "e = IndexError"
    by (auto simp: handle_navigation_def Let_def split: if_splits)
  from dijkstra_single_node [OF dj t(4) bad] have "the so = the eo" .
  with t(1,2) have "so = Some (the so)" "eo = Some (the so)"
    by (auto simp: truthy_def split: option.splits)
  with se t(3) e show ?thesis by metis
qed

lemma labelled_texts:
  "x \<in> set [text. (text, label) \<leftarrow> es, label = l] \<Longrightarrow> (x, l) \<in> set es"
  by (auto split: if_splits)

text \<open>
  When every stored session satisfies the invariant, the only exception that leaves
  \<^verbatim>\<open>chat\<close> is an \<^verbatim>\<open>IndexError\<close>: of a navigation request (from the message,
  or from the stored cabin) that resolves to one node of the graph as start and as end,
  or of an entity of the message that contains no word.
\<close>

lemma chat_raises:
  assumes ok: "sessions_ok user_sessions"
    and res: "chat env user_sessions (Some uid) (Some m) = (Inl e, sessions', tr)"
  shows "e = IndexError \<and>
    ((\<exists>a. map_of (build_graph_from_neo4j env) a \<noteq> None \<and>
        (start_end_nodes env (nlp env (str_strip env m)) = (Some a, Some a) \<or>
         (\<exists>s c. user_sessions uid = Some s \<and> teacher_cabin s = Some c \<and>
            start_end_nodes env (nlp env (''go from my current location to '' @ c)) =
              (Some a, Some a)))) \<or>
     (\<exists>text label. (text, label) \<in> set (ents (nlp env (str_strip env m))) \<and>
        str_split env text = []))"
proof -
  define message where "message = str_strip env m"
  define s where "s = (case user_sessions uid of None \<Rightarrow> new_session | Some s \<Rightarrow> s)"
  define ss where "ss = (case user_sessions uid of
      None \<Rightarrow> user_sessions(uid \<mapsto> new_session) | Some s \<Rightarrow> user_sessions)"
  have s_ok: "session_ok s"
    using ok by (auto simp: s_def sessions_ok_def session_ok_def new_session_def split: option.splits)
  have known: "ss uid \<noteq> None" by (simp add: ss_def split: option.splits)
  note unf = chat_def Let_def option.case message_def [symmetric] s_def [symmetric]
    ss_def [symmetric]
  note nav = handle_navigation_raises [where user_sessions = ss and uid = uid, OF known]
  show ?thesis
  proof (cases "state s")
    case idle
    with res have il: "intent_logic env ss uid message s = (Inl e, sessions', tr)"
      unfolding unf by simp
    obtain r0 ss0 where hn: "handle_navigation env ss (nlp env message) uid = (r0, ss0)"
      by (cases "handle_navigation env ss (nlp env message) uid")
    let ?names = "[text. (text, label) \<leftarrow> ents (nlp env message), label = ''PERSON'']"
    from il hn have "r0 = Inl e \<or> (e = IndexError \<and> ?names \<noteq> [] \<and> str_split env (?names ! 0) = [])"
      by (auto simp: intent_logic_def Let_def split: if_splits list.splits)
    then show ?thesis
    proof
      assume "r0 = Inl e"
      with nav [of env "nlp env message" e ss0] hn show ?thesis
        unfolding message_def by blast
    next
      assume a: "e = IndexError \<and> ?names \<noteq> [] \<and> str_split env (?names ! 0) = []"
      then have "?names ! 0 \<in> set ?names" by (metis nth_mem length_greater_0_conv)
      then have "(?names ! 0, ''PERSON'') \<in> set (ents (nlp env message))"
        by (rule labelled_texts)
      with a show ?thesis unfolding message_def by blast
    qed
  next
    case navigation_confirm
    with s_ok obtain p d k where pl: "path s = Some p" "directions s = Some d"
      "current_step s = Some k" "length p = length d + 1" "k < length p"
      by (auto simp: session_ok_def route_payload_def split: option.splits)
    with res navigation_confirm show ?thesis
      unfolding unf by (auto split: if_splits)
  next
    case teacher_selection
    with res show ?thesis
      unfolding unf by (auto split: if_splits option.splits)
  next
    case navigate_to_teacher_confirm
    with s_ok obtain c where c: "teacher_cabin s = Some c" by (auto simp: session_ok_def)
    from navigate_to_teacher_confirm have stored: "user_sessions uid = Some s"
      by (auto simp: s_def new_session_def split: option.splits)
    let ?doc = "nlp env (''go from my current location to '' @ c)"
    obtain r0 ss0 where hn: "handle_navigation env ss ?doc uid = (r0, ss0)"
      by (cases "handle_navigation env ss ?doc uid")
    from res navigate_to_teacher_confirm c hn have "r0 = Inl e"
      unfolding unf by (auto split: if_splits)
    with nav [of env ?doc e ss0] hn stored c show ?thesis by blast
  qed
qed

subsection \<open>The replies of a started navigation and of a teacher list\<close>

text \<open>
  On the example campus: the request "navigate from gate to ab1\_303" of a user in state
  \<^verbatim>\<open>idle\<close> stores the route and is answered by its first step, and the three
  teachers are listed one per line.
\<close>

lemma navigation_start_example:
  "handle_navigation campus [''u1'' \<mapsto> new_session]
     (nlp campus ''navigate from gate to ab1_303'') ''u1'' =
   (Inr ''Okay, starting navigation from GATE to AB1_303. First, take the path on your right to reach LIBRARY. Let me know when you're there.'',
    [''u1'' \<mapsto> route_session 0])"
proof -
  have se: "start_end_nodes campus (nlp campus ''navigate from gate to ab1_303'') =
      (Some ''GATE'', Some ''AB1_303'')"
    by code_simp
  have d: "dijkstra (build_graph_from_neo4j campus) ''GATE'' ''AB1_303'' =
      (Finite 25, [''GATE'', ''LIBRARY'', ''AB1_303''],
       [''take the path on your right'', ''go straight down the corridor''])"
    by code_simp
  show ?thesis
    unfolding handle_navigation_def se
    by (simp add: truthy_def d [unfolded campus_graph] campus_graph
        navigation_start_reply_def route_session_def new_session_def Let_def)
qed

lemma teacher_list_example:
  "teacher_list_reply sample_teachers =
     ''I found multiple teachers with that name. Please choose one:\<newline>1. Aayush Sharma (Computer Science)\<newline>2. Sneha Verma (Electronics)\<newline>3. Aarav Gupta (Mechanical)\<newline>''"
  by code_simp


subsection \<open>Claims on the dialog controller\<close>

text \<open>
  Claim C2, which the program does not meet. The claim: every message in every session
  state is answered by a reply, never by an uncaught exception, in particular a
  navigation request whose start and end node are the same key of the graph. The
  program: the router returns the single-node route with no instruction, the handler
  stores it in the session and then reads \<^verbatim>\<open>directions[0]\<close>, which raises
  \<^verbatim>\<open>IndexError\<close>; nothing catches it. The evaluation below is the request
  "navigate from gate to gate" of a new user on the example campus. (By
  \<open>handle_navigation_same_node\<close> every such request raises, and by \<open>chat_raises\<close>
  no other request does, but for a person entity without a word.)
\<close>

theorem same_node_navigation_raises:
  "chat campus Map.empty (Some ''u1'') (Some ''navigate from gate to gate'') =
     (Inl IndexError,
      [''u1'' \<mapsto> new_session\<lparr>state := navigation_confirm, path := Some [''GATE''],
          directions := Some [], current_step := Some 0\<rparr>],
      [''navigate from gate to gate''])"
proof -
  have g: "map_of (build_graph_from_neo4j campus) ''GATE'' \<noteq> None"
    by (simp add: campus_graph)
  have "handle_navigation campus [''u1'' \<mapsto> new_session]
      (nlp campus ''navigate from gate to gate'') ''u1'' =
    (Inl IndexError,
     [''u1'' \<mapsto> new_session\<lparr>state := navigation_confirm, path := Some [''GATE''],
          directions := Some [], current_step := Some 0\<rparr>])"
    using handle_navigation_same_node [OF start_end_gate _ g, of "[''u1'' \<mapsto> new_session]" "''u1''" new_session]
    by simp
  moreover have "state new_session = idle" by (simp add: new_session_def)
  ultimately show ?thesis
    unfolding chat_def intent_logic_def
    by (simp only: Let_def strip_navigate get_intent_navigate option.case map_upd_Some_unfold
        fun_upd_same dialog_state.case prod.case if_True if_False refl)
      simp
qed

text \<open>
  Claim C3. In state \<^verbatim>\<open>navigation_confirm\<close>, with the route \<open>p\<close>, \<open>d\<close> and the
  step \<open>k\<close> that the session holds in that state (by \<open>chat_sessions_ok\<close>, in every
  session that the program has put into it), and for every \<^verbatim>\<open>str.strip\<close> and
  \<^verbatim>\<open>str.lower\<close>: an affirming message (the lower-cased message contains "yes",
  "ok" or "reached") at a step before the last (\<open>k + 1 < length p\<close>, that is
  \<open>k < len(path) - 1\<close>) is answered by "Great! Now, <instruction \<open>k\<close>> to reach
  <node \<open>k + 1\<close>>. Let me know when you've reached.", adds exactly one to the step
  and keeps the state, so that the step stays at most \<open>len(path) - 1\<close>; an affirming
  message at the last step is answered by "You have arrived at your destination!" and
  puts the session into \<^verbatim>\<open>idle\<close>; any other message leaves the session store
  as it is and is answered by "Okay, I'll wait. Just say 'yes' or 'reached' when you
  get there.".
\<close>

theorem navigation_confirm_step:
  assumes "user_sessions uid = Some s" and "state s = navigation_confirm"
  shows
    "((contains (str_lower env (str_strip env m)) ''yes'' \<or>
       contains (str_lower env (str_strip env m)) ''ok'' \<or>
       contains (str_lower env (str_strip env m)) ''reached'') \<and>
      path s = Some p \<and> directions s = Some d \<and>
      current_step s = Some k \<and> length p = length d + 1 \<and> k + 1 < length p \<longrightarrow>
        chat env user_sessions (Some uid) (Some m) =
          (Inr (''Great! Now, '' @ d ! k @ '' to reach '' @ p ! (k + 1) @
                ''. Let me know when you've reached.''),
           user_sessions(uid \<mapsto> s\<lparr>current_step := Some (k + 1)\<rparr>), []) \<and>
        k + 1 \<le> length p - 1) \<and>
     ((contains (str_lower env (str_strip env m)) ''yes'' \<or>
       contains (str_lower env (str_strip env m)) ''ok'' \<or>
       contains (str_lower env (str_strip env m)) ''reached'') \<and>
      path s = Some p \<and> current_step s = Some k \<and> \<not> k + 1 < length p \<longrightarrow>
        chat env user_sessions (Some uid) (Some m) =
          (Inr ''You have arrived at your destination!'',
           user_sessions(uid \<mapsto> s\<lparr>state := idle\<rparr>), [])) \<and>
     (\<not> (contains (str_lower env (str_strip env m)) ''yes'' \<or>
         contains (str_lower env (str_strip env m)) ''ok'' \<or>
         contains (str_lower env (str_strip env m)) ''reached'') \<longrightarrow>
        chat env user_sessions (Some uid) (Some m) =
          (Inr ''Okay, I'll wait. Just say 'yes' or 'reached' when you get there.'',
           user_sessions, []))"
  using assms by (simp add: chat_def Let_def affirms_def next_step_reply_def)

theorem navigation_confirm_step_witness:
  "chat campus [''u1'' \<mapsto> route_session 0] (Some ''u1'') (Some ''Yes, reached'') =
     (Inr ''Great! Now, take the path on your right to reach LIBRARY. Let me know when you've reached.'',
      [''u1'' \<mapsto> route_session 1], []) \<and>
   chat campus [''u1'' \<mapsto> route_session 2] (Some ''u1'') (Some ''Yes, reached'') =
     (Inr ''You have arrived at your destination!'',
      [''u1'' \<mapsto> (route_session 2)\<lparr>state := idle\<rparr>], []) \<and>
   chat campus [''u1'' \<mapsto> route_session 0] (Some ''u1'') (Some ''wait a moment'') =
     (Inr ''Okay, I'll wait. Just say 'yes' or 'reached' when you get there.'',
      [''u1'' \<mapsto> route_session 0], [])"
proof -
  have s: "state (route_session k) = navigation_confirm"
    "path (route_session k) = Some [''GATE'', ''LIBRARY'', ''AB1_303'']"
    "directions (route_session k) =
       Some [''take the path on your right'', ''go straight down the corridor'']"
    "current_step (route_session k) = Some k"
    "(route_session k)\<lparr>current_step := Some j\<rparr> = route_session j" for k j
    by (simp_all add: route_session_def)
  have u: "[''u1'' \<mapsto> route_session k] ''u1'' = Some (route_session k)" for k by simp
  have a: "contains (str_lower campus (str_strip campus ''Yes, reached'')) ''yes''"
    "\<not> contains (str_lower campus (str_strip campus ''wait a moment'')) ''yes''"
    "\<not> contains (str_lower campus (str_strip campus ''wait a moment'')) ''ok''"
    "\<not> contains (str_lower campus (str_strip campus ''wait a moment'')) ''reached''"
    using affirms_reached not_affirms_wait by code_simp+
  note t = navigation_confirm_step [where uid = "''u1''" and env = campus
      and p = "[''GATE'', ''LIBRARY'', ''AB1_303'']"
      and d = "[''take the path on your right'', ''go straight down the corridor'']"]
  from t [where k = 0 and m = "''Yes, reached''" and s = "route_session 0"
        and user_sessions = "[''u1'' \<mapsto> route_session 0]", OF u s(1)]
    t [where k = 2 and m = "''Yes, reached''" and s = "route_session 2"
        and user_sessions = "[''u1'' \<mapsto> route_session 2]", OF u s(1)]
    t [where k = 0 and m = "''wait a moment''" and s = "route_session 0"
        and user_sessions = "[''u1'' \<mapsto> route_session 0]", OF u s(1)]
    a
  show ?thesis by (simp add: s)
qed

text \<open>
  Claim C4. In state \<^verbatim>\<open>teacher_selection\<close> with the stored candidates \<open>ts\<close>, for
  every \<^verbatim>\<open>str.strip\<close> and every \<^verbatim>\<open>int\<close> (\<open>None\<close>: it raises
  \<^verbatim>\<open>ValueError\<close>): a message that \<^verbatim>\<open>int\<close> reads as \<open>n\<close> with
  \<open>1 \<le> n \<le> length ts\<close> is answered by the directory entry of candidate \<open>n\<close> (first
  and last name, email, phone, cabin and building, department) followed by "Would you
  like me to navigate you to their cabin?", puts the session into
  \<^verbatim>\<open>navigate_to_teacher_confirm\<close> and stores that candidate's cabin; an integer
  outside this range leaves the session store, so the state and the candidates, as it
  is and is answered by "That's not a valid choice. Please pick a number from the
  list."; a message that is no integer leaves it as it is and is answered by "Please
  enter a number to choose a teacher.".
\<close>

theorem teacher_selection_choice:
  assumes "user_sessions uid = Some s" and "state s = teacher_selection"
    and "teachers s = Some ts"
  shows
    "(\<forall>n t. py_int env (str_strip env m) = Some n \<and> 1 \<le> n \<and> n \<le> int (length ts) \<and>
        t = ts ! nat (n - 1) \<longrightarrow>
        chat env user_sessions (Some uid) (Some m) =
          (Inr (''Here are the details for '' @ firstName t @ '' '' @ lastName t @
                '':\<newline>Email: '' @ email t @
                ''\<newline>Phone: '' @ phone t @
                ''\<newline>Cabin: '' @ cabin t @ '' in '' @ building t @
                ''\<newline>Department: '' @ department t @
                ''.\<newline>\<newline>Would you like me to navigate you to their cabin?''),
           user_sessions(uid \<mapsto> s\<lparr>state := navigate_to_teacher_confirm,
              teacher_cabin := Some (cabin t)\<rparr>), [])) \<and>
     (\<forall>n. py_int env (str_strip env m) = Some n \<and> \<not> (1 \<le> n \<and> n \<le> int (length ts)) \<longrightarrow>
        chat env user_sessions (Some uid) (Some m) =
          (Inr ''That's not a valid choice. Please pick a number from the list.'',
           user_sessions, [])) \<and>
     (py_int env (str_strip env m) = None \<longrightarrow>
        chat env user_sessions (Some uid) (Some m) =
          (Inr ''Please enter a number to choose a teacher.'', user_sessions, []))"
  using assms by (auto simp add: chat_def Let_def teacher_details_def)

theorem teacher_selection_choice_witness:
  "chat campus [''u1'' \<mapsto> selection_session] (Some ''u1'') (Some ''1'') =
     (Inr ''Here are the details for Aayush Sharma:\<newline>Email: Aayush.sharma@university.edu\<newline>Phone: 9876543210\<newline>Cabin: AB1_303 in AB1\<newline>Department: Computer Science.\<newline>\<newline>Would you like me to navigate you to their cabin?'',
      [''u1'' \<mapsto> selection_session\<lparr>state := navigate_to_teacher_confirm,
          teacher_cabin := Some ''AB1_303''\<rparr>], []) \<and>
   chat campus [''u1'' \<mapsto> selection_session] (Some ''u1'') (Some ''4'') =
     (Inr ''That's not a valid choice. Please pick a number from the list.'',
      [''u1'' \<mapsto> selection_session], []) \<and>
   chat campus [''u1'' \<mapsto> selection_session] (Some ''u1'') (Some ''the first'') =
     (Inr ''Please enter a number to choose a teacher.'', [''u1'' \<mapsto> selection_session], [])"
proof -
  have s: "state selection_session = teacher_selection"
    "teachers selection_session = Some sample_teachers"
    by (simp_all add: selection_session_def)
  have u: "[''u1'' \<mapsto> selection_session] ''u1'' = Some selection_session" by simp
  have c: "sample_teachers ! 0 =
      \<lparr>firstName = ''Aayush'', lastName = ''Sharma'', phone = ''9876543210'',
       email = ''Aayush.sharma@university.edu'', cabin = ''AB1_303'', building = ''AB1'',
       department = ''Computer Science''\<rparr>"
    "length sample_teachers = 3"
    by (simp_all add: sample_teachers_def)
  note t = teacher_selection_choice [where uid = "''u1''" and env = campus
      and user_sessions = "[''u1'' \<mapsto> selection_session]", OF u s]
  from t [of "''1''"] t [of "''4''"] t [of "''the first''"] py_int_1 py_int_4 py_int_first c
  show ?thesis by simp
qed

text \<open>
  Claim C5. For every graph and every start and end node with no path from start to
  end, \<^verbatim>\<open>dijkstra\<close> returns infinite cost with an empty node sequence and an
  empty instruction sequence; and when the two nodes are keys of the graph, the
  navigation handler, for every request that it resolves to these two nodes on this
  graph, replies "I'm sorry, I couldn't find a path from <start> to <end>." and leaves
  the session store as it is. (The handler only reaches the router with two non-empty
  node names; by \<open>dijkstra_finds_path\<close> the router returns a route whenever there is
  a path.)
\<close>

theorem no_path_reply_unchanged:
  assumes "\<not> (\<exists>nodes. walk g start end_node nodes)"
  shows "dijkstra g start end_node = (Infinite, [], []) \<and>
    (\<forall>env doc user_sessions uid.
       build_graph_from_neo4j env = g \<and>
       start_end_nodes env doc = (Some start, Some end_node) \<and>
       start \<noteq> [] \<and> end_node \<noteq> [] \<and>
       map_of g start \<noteq> None \<and> map_of g end_node \<noteq> None \<longrightarrow>
       handle_navigation env user_sessions doc uid =
         (Inr (''I'm sorry, I couldn't find a path from '' @ start @ '' to '' @ end_node @ ''.''),
          user_sessions))"
proof -
  from dijkstra_walk_or_none [of g start end_node] assms
  have d: "dijkstra g start end_node = (Infinite, [], [])" by blast
  have "handle_navigation env user_sessions doc uid =
      (Inr (''I'm sorry, I couldn't find a path from '' @ start @ '' to '' @ end_node @ ''.''),
       user_sessions)"
    if "build_graph_from_neo4j env = g \<and>
       start_end_nodes env doc = (Some start, Some end_node) \<and>
       start \<noteq> [] \<and> end_node \<noteq> [] \<and>
       map_of g start \<noteq> None \<and> map_of g end_node \<noteq> None"
    for env doc user_sessions uid
    using that d by (auto simp: handle_navigation_def truthy_def no_path_reply_def)
  with d show ?thesis by blast
qed

theorem no_path_reply_unchanged_witness:
  "dijkstra (build_graph_from_neo4j campus) ''ANNEX'' ''GATE'' = (Infinite, [], []) \<and>
   handle_navigation campus [''u1'' \<mapsto> new_session] (nlp campus ''go from annex to gate'') ''u1'' =
     (Inr ''I'm sorry, I couldn't find a path from ANNEX to GATE.'', [''u1'' \<mapsto> new_session])"
proof -
  let ?g = "build_graph_from_neo4j campus"
  have keys: "map_of ?g ''ANNEX'' \<noteq> None" "map_of ?g ''GATE'' \<noteq> None"
    by (simp_all add: campus_graph)
  have nowalk: "\<not> (\<exists>nodes. walk ?g ''ANNEX'' ''GATE'' nodes)"
  proof
    assume "\<exists>nodes. walk ?g ''ANNEX'' ''GATE'' nodes"
    then obtain nodes where w: "walk ?g ''ANNEX'' ''GATE'' nodes" ..
    show False
    proof (cases nodes)
      case Nil
      with w show False by (simp add: walk_def)
    next
      case (Cons u rest)
      show False
      proof (cases rest)
        case Nil
        with w Cons show False by (auto simp: walk_def)
      next
        case (Cons v rest')
        have "edge ?g ''ANNEX'' v = None"
          by (simp add: edge_def graph_get_def campus_graph)
        with w \<open>nodes = u # rest\<close> Cons show False
          by (auto simp: walk_def)
      qed
    qed
  qed
  have se: "start_end_nodes campus (nlp campus ''go from annex to gate'') =
      (Some ''ANNEX'', Some ''GATE'')"
    by code_simp
  from no_path_reply_unchanged [OF nowalk] se keys show ?thesis by simp
qed

text \<open>
  Claim C9. When the state of the user's session is \<^verbatim>\<open>navigation_confirm\<close>,
  \<^verbatim>\<open>teacher_selection\<close> or \<^verbatim>\<open>navigate_to_teacher_confirm\<close> (that is, not
  \<^verbatim>\<open>idle\<close>), handling a message makes no call of \<^verbatim>\<open>get_intent\<close> and its
  outcome does not depend on the similarity that the classifier uses; in state
  \<^verbatim>\<open>idle\<close> \<^verbatim>\<open>get_intent\<close> is called once, on the stripped message.
  This holds for every \<^verbatim>\<open>str.strip\<close>, \<^verbatim>\<open>str.lower\<close> and \<^verbatim>\<open>int\<close>.
\<close>

theorem classification_only_when_idle:
  assumes "user_sessions uid = Some s"
  shows
    "(state s \<noteq> idle \<longrightarrow>
        snd (snd (chat env user_sessions (Some uid) (Some m))) = [] \<and>
        (\<forall>f. chat (env\<lparr>cosine := f\<rparr>) user_sessions (Some uid) (Some m) =
              chat env user_sessions (Some uid) (Some m))) \<and>
     (state s = idle \<longrightarrow>
        snd (snd (chat env user_sessions (Some uid) (Some m))) = [str_strip env m])"
proof (cases "state s")
  case idle
  have "snd (snd (intent_logic env user_sessions uid (str_strip env m) s)) = [str_strip env m]"
    by (simp add: intent_logic_def Let_def split: prod.splits list.splits)
  with assms idle show ?thesis by (simp add: chat_def Let_def)
next
  case navigation_confirm
  with assms show ?thesis
    by (simp add: chat_def Let_def affirms_cosine split: option.splits)
next
  case teacher_selection
  with assms show ?thesis by (simp add: chat_def Let_def split: option.splits)
next
  case navigate_to_teacher_confirm
  with assms show ?thesis
    by (simp add: chat_def Let_def handle_navigation_cosine split: option.splits prod.splits)
qed

theorem classification_only_when_idle_witness:
  "snd (snd (chat campus [''u1'' \<mapsto> route_session 0] (Some ''u1'') (Some ''hello''))) = [] \<and>
   snd (snd (chat campus [''u1'' \<mapsto> selection_session] (Some ''u1'') (Some ''hello''))) = [] \<and>
   snd (snd (chat campus [''u1'' \<mapsto> cabin_session ''AB1_303''] (Some ''u1'') (Some ''hello''))) = [] \<and>
   snd (snd (chat campus [''u1'' \<mapsto> new_session] (Some ''u1'') (Some ''hello''))) = [''hello'']"
proof -
  have u: "[''u1'' \<mapsto> s] ''u1'' = Some s" for s :: session by simp
  have "state (route_session 0) \<noteq> idle" and "state selection_session \<noteq> idle"
    and "state (cabin_session ''AB1_303'') \<noteq> idle" and "state new_session = idle"
    by (simp_all add: route_session_def selection_session_def cabin_session_def new_session_def)
  have t: "(state s \<noteq> idle \<longrightarrow>
        snd (snd (chat campus [''u1'' \<mapsto> s] (Some ''u1'') (Some ''hello''))) = []) \<and>
     (state s = idle \<longrightarrow>
        snd (snd (chat campus [''u1'' \<mapsto> s] (Some ''u1'') (Some ''hello''))) =
          [str_strip campus ''hello''])"
    for s
    using classification_only_when_idle [where uid = "''u1''" and env = campus
      and m = "''hello''" and user_sessions = "[''u1'' \<mapsto> s]" and s = s, OF u]
    by blast
  from \<open>state (route_session 0) \<noteq> idle\<close> \<open>state selection_session \<noteq> idle\<close>
    \<open>state (cabin_session ''AB1_303'') \<noteq> idle\<close> \<open>state new_session = idle\<close>
    t [of "route_session 0"] t [of selection_session] t [of "cabin_session ''AB1_303''"]
    t [of new_session] strip_hello
  show ?thesis by simp
qed

text \<open>
  Claim C10, amended. When the user affirms in state
  \<^verbatim>\<open>navigate_to_teacher_confirm\<close>, navigation starts from the phrase
  "go from my current location to <cabin>". If the tokenizer yields the six words of
  the phrase followed by the tokens \<open>ts\<close> (and \<^verbatim>\<open>str.upper\<close> maps "my" to
  "MY"), the token scan resolves the start node to "MY"; on every graph without a node
  "MY" the reply is "Sorry, I don't recognize one of the locations: MY or <the
  upper-cased first token of \<open>ts\<close>>. Please use known location names." when there is
  a token after "to" and its upper-cased text is not empty, and the general navigation
  help when there is none; in both cases the session store stays as it is, so the
  session stays in \<^verbatim>\<open>navigate_to_teacher_confirm\<close>.
\<close>

theorem teacher_navigation_start:
  assumes "user_sessions uid = Some s" and "state s = navigate_to_teacher_confirm"
    and "teacher_cabin s = Some c"
    and "contains (str_lower env (str_strip env m)) ''yes''"
    and "tokens (nlp env (''go from my current location to '' @ c)) =
           [''go'', ''from'', ''my'', ''current'', ''location'', ''to''] @ ts"
    and "str_upper env ''my'' = ''MY''"
    and "map_of (build_graph_from_neo4j env) ''MY'' = None"
  shows "chat env user_sessions (Some uid) (Some m) =
    (Inr (if ts \<noteq> [] \<and> str_upper env (hd ts) \<noteq> []
          then ''Sorry, I don't recognize one of the locations: MY or '' @
               str_upper env (hd ts) @ ''. Please use known location names.''
          else ''I can help with navigation. Please tell me where you are starting from and where you want to go, for example: 'Navigate from AB1-101 to AB2-205'.''),
     user_sessions, [])"
proof -
  have se: "start_end_nodes env (nlp env (''go from my current location to '' @ c)) =
    (Some ''MY'', if ts = [] then None else Some (str_upper env (hd ts)))"
    using assms(5,6) by (cases ts) (simp_all add: start_end_nodes_def Let_def)
  show ?thesis using assms(1-4,7) se
    by (simp add: chat_def Let_def handle_navigation_def truthy_def
        unrecognized_reply_def navigation_help_reply_def)
qed

theorem teacher_navigation_start_witness:
  "chat campus [''u1'' \<mapsto> cabin_session ''AB1_303''] (Some ''u1'') (Some ''Yes please'') =
     (Inr ''Sorry, I don't recognize one of the locations: MY or AB1_303. Please use known location names.'',
      [''u1'' \<mapsto> cabin_session ''AB1_303''], [])"
proof -
  have u: "[''u1'' \<mapsto> s] ''u1'' = Some s" for s :: session by simp
  have s: "state (cabin_session ''AB1_303'') = navigate_to_teacher_confirm"
    "teacher_cabin (cabin_session ''AB1_303'') = Some ''AB1_303''"
    by (simp_all add: cabin_session_def)
  from teacher_navigation_start [where uid = "''u1''"
      and user_sessions = "[''u1'' \<mapsto> cabin_session ''AB1_303'']",
      OF u s yes_please cabin_tokens upper_my campus_no_my] upper_ab1
  show ?thesis by simp
qed

text \<open>
  Claim C10 as it was stated fails when no token follows "to": on the example campus,
  which has no node "MY", the affirmation of a session whose stored cabin is the empty
  string is answered by the general navigation help, which is not the
  unrecognized-location message. (The read of the token after "to" raises
  \<^verbatim>\<open>IndexError\<close>, which the handler catches, and the end node stays
  \<^verbatim>\<open>None\<close>.)
\<close>

theorem empty_cabin_counterexample:
  "map_of (build_graph_from_neo4j campus) ''MY'' = None \<and>
   tokens (nlp campus (''go from my current location to '' @ [])) =
     [''go'', ''from'', ''my'', ''current'', ''location'', ''to''] \<and>
   chat campus [''u1'' \<mapsto> cabin_session []] (Some ''u1'') (Some ''yes'') =
     (Inr ''I can help with navigation. Please tell me where you are starting from and where you want to go, for example: 'Navigate from AB1-101 to AB2-205'.'',
      [''u1'' \<mapsto> cabin_session []], []) \<and>
   \<not> startswith
       ''I can help with navigation. Please tell me where you are starting from and where you want to go, for example: 'Navigate from AB1-101 to AB2-205'.''
       ''Sorry, I don't recognize one of the locations''"
proof -
  have s: "state (cabin_session []) = navigate_to_teacher_confirm"
    "teacher_cabin (cabin_session []) = Some []"
    by (simp_all add: cabin_session_def)
  have tk: "tokens (nlp campus (''go from my current location to '' @ [])) =
     [''go'', ''from'', ''my'', ''current'', ''location'', ''to'']"
    by code_simp
  have "handle_navigation campus user_sessions
      (nlp campus ''go from my current location to '') ''u1'' =
    (Inr navigation_help_reply, user_sessions)" for user_sessions
    unfolding handle_navigation_def empty_cabin_nodes by (simp add: truthy_def)
  then have "chat campus [''u1'' \<mapsto> cabin_session []] (Some ''u1'') (Some ''yes'') =
     (Inr navigation_help_reply, [''u1'' \<mapsto> cabin_session []], [])"
    using yes_yes s by (simp add: chat_def Let_def)
  moreover have "\<not> startswith navigation_help_reply
      ''Sorry, I don't recognize one of the locations''"
    by (simp add: navigation_help_reply_def)
  ultimately show ?thesis using campus_no_my tk by (simp add: navigation_help_reply_def)
qed

end
